theory Spec2Isabelle
  imports Complex_Main "HOL-Library.Word" "HOL-Library.Log_Nat"
begin

section \<open>Data model\<close>

text \<open>
  The split statistics of \<^verbatim>\<open>splitCustom.c\<close> share one argument contract. An
  \<^verbatim>\<open>unsigned int\<close> is a 32-bit word whose arithmetic wraps. A \<^verbatim>\<open>double\<close> is a real
  number. In the survival, competing-risk, regression and canonical-correlation statistics
  its arithmetic is exact: rounding and the finite range of the format are not part of
  their models. In the classification statistic every operation rounds to the nearest
  double (section \<open>Classification\<close>), because the property examined there is that a
  result is exact. A division by zero, which in C traps nothing and yields an infinity
  or a NaN, is kept apart: a \<open>real option\<close> is a \<^verbatim>\<open>double\<close> whose value \<open>None\<close> stands for
  a non-finite number. In these functions a non-finite intermediate result always reaches
  the returned value, and no divisor is itself non-finite.

  The arrays of the caller (\<^verbatim>\<open>membership\<close>, \<^verbatim>\<open>time\<close>, \<^verbatim>\<open>event\<close>, \<^verbatim>\<open>eventTime\<close>,
  \<^verbatim>\<open>response\<close>, the rows of \<^verbatim>\<open>feature\<close>) are indexed from 1; an array is the map from
  an index to the value stored there. The code reads them at the indices \<open>1..n\<close> (or
  \<open>1..eventTimeSize\<close>) only. Parameters a function never reads are left out of its model.
  Memory allocation is assumed to succeed.
\<close>

type_synonym uint = "32 word"

datatype daughter = LEFT | RIGHT

type_synonym 'a carray = "nat \<Rightarrow> 'a"

text \<open>
  Where the C code has no defined result the model returns a fault: a write outside an
  allocated table, a conversion from \<^verbatim>\<open>double\<close> to an integer type that cannot hold the
  value, a signed overflow, and a loop \<^verbatim>\<open>for (i = 1; i <= n; i++)\<close> over an
  \<^verbatim>\<open>unsigned int\<close> counter with \<open>n = UINT_MAX\<close>, which never exits.
\<close>

datatype fault = OutOfBounds | ConversionRange | SignedOverflow | NoExit

text \<open>The casts \<^verbatim>\<open>(unsigned int) x\<close> and \<^verbatim>\<open>int d = x\<close> truncate towards zero.\<close>

definition trunc :: "real \<Rightarrow> int" where
  "trunc x = (if x < 0 then \<lceil>x\<rceil> else \<lfloor>x\<rfloor>)"

definition toUInt :: "real \<Rightarrow> fault + uint" where
  "toUInt x = (if - 1 < x \<and> x < 2 ^ 32 then Inr (word_of_int (trunc x)) else Inl ConversionRange)"

definition toInt :: "real \<Rightarrow> fault + int" where
  "toInt x = (if - (2 ^ 31) - 1 < x \<and> x < 2 ^ 31 then Inr (trunc x) else Inl ConversionRange)"

text \<open>Arithmetic on doubles with the non-finite value made explicit.\<close>

definition dbl :: "uint \<Rightarrow> real" where
  "dbl w = real (unat w)"

definition ddiv :: "real \<Rightarrow> real \<Rightarrow> real option" where
  "ddiv x y = (if y = 0 then None else Some (x / y))"

definition dadd :: "real option \<Rightarrow> real option \<Rightarrow> real option" where
  "dadd x y = (case (x, y) of (Some a, Some b) \<Rightarrow> Some (a + b) | _ \<Rightarrow> None)"

definition dmul :: "real option \<Rightarrow> real option \<Rightarrow> real option" where
  "dmul x y = (case (x, y) of (Some a, Some b) \<Rightarrow> Some (a * b) | _ \<Rightarrow> None)"

definition dsub :: "real option \<Rightarrow> real option \<Rightarrow> real option" where
  "dsub x y = (case (x, y) of (Some a, Some b) \<Rightarrow> Some (a - b) | _ \<Rightarrow> None)"

definition dfabs :: "real option \<Rightarrow> real option" where
  "dfabs x = map_option abs x"

definition dsqrt :: "real option \<Rightarrow> real option" where
  "dsqrt x = (case x of None \<Rightarrow> None | Some a \<Rightarrow> if a < 0 then None else Some (sqrt a))"

text \<open>A view of a list as an array indexed from 1, to write concrete inputs.\<close>

definition arr :: "'a list \<Rightarrow> 'a carray" where
  "arr xs i = xs ! (i - 1)"

section \<open>Survival: the log-rank statistic\<close>

text \<open>
  \<^verbatim>\<open>getCustomSplitStatisticSurvival\<close> (lines 270--413). The four count tables are
  allocated with \<open>eventTimeSize + 1\<close> cells and the cells \<open>1..eventTimeSize\<close> are set to 0.
\<close>

record survTables =
  nodeLeftEvent :: "uint carray"
  nodeParentEvent :: "uint carray"
  nodeLeftAtRisk :: "uint carray"
  nodeParentAtRisk :: "uint carray"

definition resetTables :: survTables where
  "resetTables = \<lparr> nodeLeftEvent = (\<lambda>_. 0), nodeParentEvent = (\<lambda>_. 0),
                    nodeLeftAtRisk = (\<lambda>_. 0), nodeParentAtRisk = (\<lambda>_. 0) \<rparr>"

text \<open>\<^verbatim>\<open>a[k] ++\<close> on a table of unsigned counts.\<close>

definition incr :: "uint carray \<Rightarrow> nat \<Rightarrow> uint carray" where
  "incr a k = a(k := a k + 1)"

text \<open>The body of the sweep for an observation at risk at \<open>eventTime[k]\<close> (lines 336--354).\<close>

definition visit :: "daughter carray \<Rightarrow> real carray \<Rightarrow> real carray \<Rightarrow> real carray \<Rightarrow>
    nat \<Rightarrow> nat \<Rightarrow> survTables \<Rightarrow> survTables" where
  "visit membership time event eventTime i k t =
     (let t1 = t\<lparr> nodeParentAtRisk := incr (nodeParentAtRisk t) k \<rparr>;
          t2 = (if membership i = LEFT
                then t1\<lparr> nodeLeftAtRisk := incr (nodeLeftAtRisk t1) k \<rparr> else t1)
      in if eventTime k = time i then
           (if event i > 0 then
              (let t3 = t2\<lparr> nodeParentEvent := incr (nodeParentEvent t2) k \<rparr>
               in if membership i = LEFT
                  then t3\<lparr> nodeLeftEvent := incr (nodeLeftEvent t3) k \<rparr> else t3)
            else t2)
         else t2)"

text \<open>
  The sweep of lines 326--364: two pointers, \<open>i\<close> over the observations and \<open>k\<close> over the
  event times, both moving down.
\<close>

function sweep :: "daughter carray \<Rightarrow> real carray \<Rightarrow> real carray \<Rightarrow> real carray \<Rightarrow>
    nat \<Rightarrow> nat \<Rightarrow> survTables \<Rightarrow> survTables" where
  "sweep membership time event eventTime i k t =
     (if i > 0 \<and> k > 0 then
        (if eventTime k \<le> time i
         then sweep membership time event eventTime (i - 1) k
                (visit membership time event eventTime i k t)
         else sweep membership time event eventTime i (k - 1) t)
      else t)"
  by pat_completeness auto
termination
  by (relation "measure (\<lambda>(m, tm, ev, et, i, k, t). i + k)") auto

text \<open>
  Lines 367--370: \<^verbatim>\<open>for (k = eventTimeSize; k > 1; k--) a[k-1] = a[k] + a[k-1]\<close>, applied to
  both at-risk tables.
\<close>

fun stepFunction :: "nat \<Rightarrow> uint carray \<Rightarrow> uint carray" where
  "stepFunction k a =
     (if k > 1 then stepFunction (k - 1) (a(k - 1 := a k + a (k - 1))) else a)"

text \<open>The tables after the sweep and the suffix sum.\<close>

definition atRiskTables :: "uint \<Rightarrow> daughter carray \<Rightarrow> real carray \<Rightarrow> real carray \<Rightarrow>
    uint \<Rightarrow> real carray \<Rightarrow> survTables" where
  "atRiskTables n membership time event eventTimeSize eventTime =
     (let t = sweep membership time event eventTime (unat n) (unat eventTimeSize) resetTables
      in t\<lparr> nodeParentAtRisk := stepFunction (unat eventTimeSize) (nodeParentAtRisk t),
             nodeLeftAtRisk := stepFunction (unat eventTimeSize) (nodeLeftAtRisk t) \<rparr>)"

text \<open>
  The loop of lines 373--385. The product \<^verbatim>\<open>nodeLeftAtRisk[k] * nodeParentEvent[k]\<close> is
  computed in \<^verbatim>\<open>unsigned int\<close> before the cast; the denominator's divisions are guarded
  by \<^verbatim>\<open>nodeParentAtRisk[k] >= 2\<close>.
\<close>

definition logrankNum :: "survTables \<Rightarrow> nat \<Rightarrow> real option \<Rightarrow> real option" where
  "logrankNum t k deltaNum =
     dadd deltaNum
       (dsub (Some (dbl (nodeLeftEvent t k)))
          (ddiv (dbl (nodeLeftAtRisk t k * nodeParentEvent t k)) (dbl (nodeParentAtRisk t k))))"

definition logrankDen :: "survTables \<Rightarrow> nat \<Rightarrow> real \<Rightarrow> real" where
  "logrankDen t k deltaDen =
     (if nodeParentAtRisk t k \<ge> 2 then
        deltaDen +
          (dbl (nodeLeftAtRisk t k) / dbl (nodeParentAtRisk t k)) *
          (1 - dbl (nodeLeftAtRisk t k) / dbl (nodeParentAtRisk t k)) *
          (dbl (nodeParentAtRisk t k - nodeParentEvent t k) / dbl (nodeParentAtRisk t k - 1)) *
          dbl (nodeParentEvent t k)
      else deltaDen)"

definition logrankSums :: "survTables \<Rightarrow> nat \<Rightarrow> real option \<times> real" where
  "logrankSums t K =
     fold (\<lambda>k (deltaNum, deltaDen). (logrankNum t k deltaNum, logrankDen t k deltaDen))
       [1..<Suc K] (Some 0, 0)"

text \<open>
  Lines 398--412, and again 604--618: a comparison with a NaN is false, so a non-finite
  numerator or denominator reaches the quotient.
\<close>

definition zeroGuard :: "real option \<Rightarrow> real option \<Rightarrow> real option" where
  "zeroGuard deltaNum deltaDen =
     (case (dfabs deltaNum, dsqrt deltaDen) of
        (Some num, Some den) \<Rightarrow>
          if den \<le> 1 / 10 ^ 9 then
            (if num \<le> 1 / 10 ^ 9 then Some 0 else ddiv num den)
          else ddiv num den
      | (None, Some den) \<Rightarrow> None
      | (_, None) \<Rightarrow> None)"

text \<open>
  With \<open>eventTimeSize = UINT_MAX\<close> the size \<^verbatim>\<open>(nh+1) * sizeof(unsigned int)\<close> of
  \<^verbatim>\<open>alloc_uivector\<close> wraps to 0 and the reset loop writes outside the tables.
\<close>

definition getCustomSplitStatisticSurvival :: "uint \<Rightarrow> daughter carray \<Rightarrow> real carray \<Rightarrow>
    real carray \<Rightarrow> uint \<Rightarrow> real carray \<Rightarrow> fault + real option" where
  "getCustomSplitStatisticSurvival n membership time event eventTimeSize eventTime =
     (if eventTimeSize = - 1 then Inl OutOfBounds
      else
        (let t = atRiskTables n membership time event eventTimeSize eventTime;
             (deltaNum, deltaDen) = logrankSums t (unat eventTimeSize)
         in Inr (zeroGuard deltaNum (Some deltaDen))))"

section \<open>Competing risks: the log-rank statistic over several causes\<close>

text \<open>
  \<^verbatim>\<open>getCustomSplitStatisticCompetingRisk\<close> (lines 416--619) keeps the four tables of the
  survival statistic and four matrices indexed by cause and event time. A matrix of
  \<^verbatim>\<open>alloc_uimatrix\<close> has the rows \<open>1..eventTypeSize\<close>; the row pointer at index 0 is never
  set.
\<close>

record crTables = survTables +
  nodeLeftEventCR :: "nat \<Rightarrow> uint carray"
  nodeParentEventCR :: "nat \<Rightarrow> uint carray"
  nodeLeftInclusiveAtRisk :: "nat \<Rightarrow> uint carray"
  nodeParentInclusiveAtRisk :: "nat \<Rightarrow> uint carray"

definition resetTablesCR :: crTables where
  "resetTablesCR = \<lparr> nodeLeftEvent = (\<lambda>_. 0), nodeParentEvent = (\<lambda>_. 0),
       nodeLeftAtRisk = (\<lambda>_. 0), nodeParentAtRisk = (\<lambda>_. 0),
       nodeLeftEventCR = (\<lambda>_ _. 0), nodeParentEventCR = (\<lambda>_ _. 0),
       nodeLeftInclusiveAtRisk = (\<lambda>_ _. 0), nodeParentInclusiveAtRisk = (\<lambda>_ _. 0) \<rparr>"

definition incr2 :: "(nat \<Rightarrow> uint carray) \<Rightarrow> nat \<Rightarrow> nat \<Rightarrow> (nat \<Rightarrow> uint carray)" where
  "incr2 m j k = m(j := incr (m j) k)"

text \<open>
  Lines 503--523. The cause \<^verbatim>\<open>(unsigned int) event[i]\<close> selects the row of the event
  matrices.
\<close>

definition visitCR :: "daughter carray \<Rightarrow> real carray \<Rightarrow> real carray \<Rightarrow> uint \<Rightarrow> real carray \<Rightarrow>
    nat \<Rightarrow> nat \<Rightarrow> crTables \<Rightarrow> fault + crTables" where
  "visitCR membership time event eventTypeSize eventTime i k t =
     (let t1 = t\<lparr> nodeParentAtRisk := incr (nodeParentAtRisk t) k \<rparr>;
          t2 = (if membership i = LEFT
                then t1\<lparr> nodeLeftAtRisk := incr (nodeLeftAtRisk t1) k \<rparr> else t1)
      in if eventTime k = time i then
           (if event i > 0 then
              (case toUInt (event i) of
                 Inl f \<Rightarrow> Inl f
               | Inr c \<Rightarrow>
                   if c = 0 \<or> c > eventTypeSize then Inl OutOfBounds
                   else
                     (let t3 = t2\<lparr> nodeParentEventCR := incr2 (nodeParentEventCR t2) (unat c) k \<rparr>;
                          t4 = t3\<lparr> nodeParentEvent := incr (nodeParentEvent t3) k \<rparr>
                      in Inr (if membership i = LEFT
                              then t4\<lparr> nodeLeftEventCR := incr2 (nodeLeftEventCR t4) (unat c) k \<rparr>
                              else t4)))
            else Inr t2)
         else Inr t2)"

function sweepCR :: "daughter carray \<Rightarrow> real carray \<Rightarrow> real carray \<Rightarrow> uint \<Rightarrow> real carray \<Rightarrow>
    nat \<Rightarrow> nat \<Rightarrow> crTables \<Rightarrow> fault + crTables" where
  "sweepCR membership time event eventTypeSize eventTime i k t =
     (if i > 0 \<and> k > 0 then
        (if eventTime k \<le> time i
         then (case visitCR membership time event eventTypeSize eventTime i k t of
                 Inl f \<Rightarrow> Inl f
               | Inr t' \<Rightarrow> sweepCR membership time event eventTypeSize eventTime (i - 1) k t')
         else sweepCR membership time event eventTypeSize eventTime i (k - 1) t)
      else Inr t)"
  by pat_completeness auto
termination
  by (relation "measure (\<lambda>(m, tm, ev, ets, et, i, k, t). i + k)") auto

text \<open>
  Lines 543--556: the inclusive at-risk counts. \<open>creditOthers\<close> is the pair of inner loops
  over \<open>s\<close> and \<open>r\<close> for one of the two matrices, \<open>inclusiveCell\<close> the body of the loop over
  \<open>j\<close>.
\<close>

definition creditOthers :: "(nat \<Rightarrow> uint carray) \<Rightarrow> nat \<Rightarrow> nat \<Rightarrow> nat \<Rightarrow> uint \<Rightarrow> uint" where
  "creditOthers eventCR R j k start =
     fold (\<lambda>s acc. fold (\<lambda>r acc'. if j \<noteq> r then acc' + eventCR r s else acc') [1..<Suc R] acc)
       [1..<k] start"

definition inclusiveCell :: "nat \<Rightarrow> nat \<Rightarrow> nat \<Rightarrow> crTables \<Rightarrow> crTables" where
  "inclusiveCell R k j t =
     t\<lparr> nodeParentInclusiveAtRisk :=
          (nodeParentInclusiveAtRisk t)(j := (nodeParentInclusiveAtRisk t j)
             (k := creditOthers (nodeParentEventCR t) R j k (nodeParentAtRisk t k))),
        nodeLeftInclusiveAtRisk :=
          (nodeLeftInclusiveAtRisk t)(j := (nodeLeftInclusiveAtRisk t j)
             (k := creditOthers (nodeLeftEventCR t) R j k (nodeLeftAtRisk t k))) \<rparr>"

definition inclusiveAtRisk :: "nat \<Rightarrow> nat \<Rightarrow> crTables \<Rightarrow> crTables" where
  "inclusiveAtRisk R K t = fold (\<lambda>k. fold (inclusiveCell R k) [1..<Suc R]) [1..<Suc K] t"

text \<open>The tables after the sweep, the suffix sum and the inclusive at-risk step.\<close>

definition tablesCR :: "uint \<Rightarrow> daughter carray \<Rightarrow> real carray \<Rightarrow> real carray \<Rightarrow>
    uint \<Rightarrow> uint \<Rightarrow> real carray \<Rightarrow> fault + crTables" where
  "tablesCR n membership time event eventTypeSize eventTimeSize eventTime =
     (case sweepCR membership time event eventTypeSize eventTime (unat n) (unat eventTimeSize)
             resetTablesCR of
        Inl f \<Rightarrow> Inl f
      | Inr t \<Rightarrow>
          Inr (inclusiveAtRisk (unat eventTypeSize) (unat eventTimeSize)
                 (t\<lparr> nodeParentAtRisk := stepFunction (unat eventTimeSize) (nodeParentAtRisk t),
                      nodeLeftAtRisk := stepFunction (unat eventTimeSize) (nodeLeftAtRisk t) \<rparr>)))"

text \<open>The terms of lines 563 and 572--576.\<close>

definition numTermCR :: "crTables \<Rightarrow> nat \<Rightarrow> nat \<Rightarrow> real option" where
  "numTermCR t j k =
     dsub (Some (dbl (nodeLeftEventCR t j k)))
       (dmul (Some (dbl (nodeParentEventCR t j k)))
          (ddiv (dbl (nodeLeftInclusiveAtRisk t j k)) (dbl (nodeParentInclusiveAtRisk t j k))))"

definition denTermCR :: "crTables \<Rightarrow> nat \<Rightarrow> nat \<Rightarrow> real option" where
  "denTermCR t j k =
     dmul (dmul
       (dmul (Some (dbl (nodeParentEventCR t j k)))
          (ddiv (dbl (nodeLeftInclusiveAtRisk t j k)) (dbl (nodeParentInclusiveAtRisk t j k))))
       (dsub (Some 1)
          (ddiv (dbl (nodeLeftInclusiveAtRisk t j k)) (dbl (nodeParentInclusiveAtRisk t j k)))))
       (ddiv (dbl (nodeParentInclusiveAtRisk t j k - nodeParentEventCR t j k))
          (dbl (nodeParentInclusiveAtRisk t j k - 1)))"

definition logrankSumsCR :: "crTables \<Rightarrow> nat \<Rightarrow> nat \<Rightarrow> real option \<times> real option" where
  "logrankSumsCR t R K =
     fold (\<lambda>j (deltaNum, deltaDen).
        (let deltaSubNum = fold (\<lambda>k s. dadd s (numTermCR t j k)) [1..<Suc K] (Some 0);
             deltaSubDen = fold (\<lambda>k s. if nodeParentAtRisk t k \<ge> 2 then dadd s (denTermCR t j k) else s)
                             [1..<Suc K] (Some 0)
         in (dadd deltaNum deltaSubNum, dadd deltaDen deltaSubDen)))
       [1..<Suc R] (Some 0, Some 0)"

definition getCustomSplitStatisticCompetingRisk :: "uint \<Rightarrow> daughter carray \<Rightarrow> real carray \<Rightarrow>
    real carray \<Rightarrow> uint \<Rightarrow> uint \<Rightarrow> real carray \<Rightarrow> fault + real option" where
  "getCustomSplitStatisticCompetingRisk n membership time event eventTypeSize eventTimeSize eventTime =
     (if eventTimeSize = - 1 \<or> eventTypeSize = - 1 then Inl OutOfBounds
      else
        (case tablesCR n membership time event eventTypeSize eventTimeSize eventTime of
           Inl f \<Rightarrow> Inl f
         | Inr t \<Rightarrow>
             (let (deltaNum, deltaDen) = logrankSumsCR t (unat eventTypeSize) (unat eventTimeSize)
              in Inr (zeroGuard deltaNum deltaDen))))"

section \<open>Regression\<close>

text \<open>\<^verbatim>\<open>getCustomSplitStatisticMultivariateRegression\<close> (lines 109--172).\<close>

definition regressionStep :: "daughter carray \<Rightarrow> real carray \<Rightarrow> real \<Rightarrow> nat \<Rightarrow>
    real \<times> uint \<times> real \<times> uint \<Rightarrow> real \<times> uint \<times> real \<times> uint" where
  "regressionStep membership response mean i =
     (\<lambda>(sumLeft, leftSize, sumRght, rghtSize).
        if membership i = LEFT
        then (sumLeft + (response i - mean), leftSize + 1, sumRght, rghtSize)
        else (sumLeft, leftSize, sumRght + (response i - mean), rghtSize + 1))"

definition getCustomSplitStatisticMultivariateRegression :: "uint \<Rightarrow> daughter carray \<Rightarrow>
    real carray \<Rightarrow> real \<Rightarrow> real \<Rightarrow> fault + real option" where
  "getCustomSplitStatisticMultivariateRegression n membership response mean variance =
     (if n = - 1 then Inl NoExit
      else
        (let (sumLeft, leftSize, sumRght, rghtSize) =
               fold (regressionStep membership response mean) [1..<Suc (unat n)] (0, 0, 0, 0);
             sumLeftSqr = ddiv (sumLeft ^ 2) (dbl leftSize * variance);
             sumRghtSqr = ddiv (sumRght ^ 2) (dbl rghtSize * variance)
         in Inr (dadd sumLeftSqr sumRghtSqr)))"

section \<open>Classification\<close>

text \<open>
  \<^verbatim>\<open>getCustomSplitStatisticMultivariateClassification\<close> (lines 174--266). The class count
  tables have the cells \<open>0..maxLevel\<close>; the cells \<open>1..maxLevel\<close> are set to 0 and summed, cell
  0 is never read back.
\<close>

fun forEach :: "(nat \<Rightarrow> 's \<Rightarrow> fault + 's) \<Rightarrow> nat list \<Rightarrow> 's \<Rightarrow> fault + 's" where
  "forEach body [] s = Inr s"
| "forEach body (i # is) s = (case body i s of Inl f \<Rightarrow> Inl f | Inr s' \<Rightarrow> forEach body is s')"

definition classificationStep :: "daughter carray \<Rightarrow> real carray \<Rightarrow> uint \<Rightarrow> nat \<Rightarrow>
    uint carray \<times> uint carray \<times> uint \<times> uint \<Rightarrow> fault + uint carray \<times> uint carray \<times> uint \<times> uint" where
  "classificationStep membership response maxLevel i =
     (\<lambda>(leftClassProp, rghtClassProp, leftSize, rghtSize).
        case toUInt (response i) of
          Inl f \<Rightarrow> Inl f
        | Inr c \<Rightarrow>
            if c > maxLevel then Inl OutOfBounds
            else if membership i = LEFT
            then Inr (incr leftClassProp (unat c), rghtClassProp, leftSize + 1, rghtSize)
            else Inr (leftClassProp, incr rghtClassProp (unat c), leftSize, rghtSize + 1))"

text \<open>
  The arithmetic of this function is that of IEEE 754 binary64 in its default rounding mode:
  the result of an operation is the double nearest to the exact result, and of two doubles
  equally near the one with the even significand. A double other than 0 is an integer
  multiple \<open>m * 2 ^ (e - 52)\<close> with \<open>2 ^ 52 \<le> |m| < 2 ^ 53\<close>, where \<open>e = binade x\<close> is the
  exponent with \<open>2 ^ e \<le> |x| < 2 ^ (e + 1)\<close>. The values of this function are 0 or lie
  between 1 and \<open>2 ^ 64\<close>, far from the overflow threshold and from the subnormal numbers,
  which are left out.
\<close>

definition pow2 :: "int \<Rightarrow> real" where
  "pow2 e = (if 0 \<le> e then 2 ^ nat e else 1 / 2 ^ nat (- e))"

definition binade :: "real \<Rightarrow> int" where
  "binade x = (if 1 \<le> \<bar>x\<bar> then bitlen \<lfloor>\<bar>x\<bar>\<rfloor> - 1 else - bitlen (\<lceil>1 / \<bar>x\<bar>\<rceil> - 1))"

definition roundEven :: "real \<Rightarrow> int" where
  "roundEven m =
     (let f = \<lfloor>m\<rfloor>; d = m - of_int f
      in if d < 1 / 2 then f else if 1 / 2 < d then f + 1 else if even f then f else f + 1)"

definition nearest :: "real \<Rightarrow> real" where
  "nearest x =
     (if x = 0 then 0
      else (let ulp = pow2 (binade x - 52) in of_int (roundEven (x / ulp)) * ulp))"

text \<open>
  \<^verbatim>\<open>pow(x, 2.0)\<close>, \<^verbatim>\<open>x + y\<close> and \<^verbatim>\<open>x / y\<close> on doubles. The C library's \<^verbatim>\<open>pow\<close> is taken to
  return the double nearest to the square.
\<close>

definition fsquare :: "real \<Rightarrow> real" where
  "fsquare x = nearest (x ^ 2)"

definition fadd :: "real option \<Rightarrow> real option \<Rightarrow> real option" where
  "fadd x y = map_option nearest (dadd x y)"

definition fdiv :: "real \<Rightarrow> real \<Rightarrow> real option" where
  "fdiv x y = map_option nearest (ddiv x y)"

text \<open>The loop of lines 247--250, for one of the two tables.\<close>

definition sumSquares :: "uint carray \<Rightarrow> nat \<Rightarrow> real" where
  "sumSquares classProp maxLevel =
     fold (\<lambda>p s. nearest (s + fsquare (dbl (classProp p)))) [1..<Suc maxLevel] 0"

definition getCustomSplitStatisticMultivariateClassification :: "uint \<Rightarrow> daughter carray \<Rightarrow>
    real carray \<Rightarrow> uint \<Rightarrow> fault + real option" where
  "getCustomSplitStatisticMultivariateClassification n membership response maxLevel =
     (if maxLevel = - 1 then Inl OutOfBounds
      else if n = - 1 then Inl NoExit
      else
        (case forEach (classificationStep membership response maxLevel) [1..<Suc (unat n)]
                ((\<lambda>_. 0), (\<lambda>_. 0), 0, 0) of
           Inl f \<Rightarrow> Inl f
         | Inr (leftClassProp, rghtClassProp, leftSize, rghtSize) \<Rightarrow>
             (let sumLeft = sumSquares leftClassProp (unat maxLevel);
                  sumRght = sumSquares rghtClassProp (unat maxLevel);
                  sumLeftSqr = fdiv sumLeft (dbl leftSize);
                  sumRghtSqr = fdiv sumRght (dbl rghtSize)
              in Inr (fadd sumLeftSqr sumRghtSqr))))"

section \<open>Canonical correlation\<close>

text \<open>
  \<^verbatim>\<open>ccaSplitAbsoluteDifference\<close> (lines 621--858). The LAPACK pipeline that turns the X
  and Y block of a daughter into its leading canonical correlation (lines 687--774 and
  776--851) is a parameter \<open>canCor\<close>; the result records the blocks handed to it. The
  counters here are \<^verbatim>\<open>int\<close>.
\<close>

type_synonym matrix = "real list list"

record ccaResult =
  ccaCor :: "real option"
  lapackInputs :: "(matrix \<times> matrix) list"

definition countDaughters :: "daughter carray \<Rightarrow> nat \<Rightarrow> int \<times> int" where
  "countDaughters membership n =
     fold (\<lambda>i (leftSize, rghtSize).
             if membership i = LEFT then (leftSize + 1, rghtSize) else (leftSize, rghtSize + 1))
       [1..<Suc n] (0, 0)"

definition assignBlocks :: "daughter carray \<Rightarrow> (nat \<Rightarrow> real carray) \<Rightarrow> nat \<Rightarrow> nat \<Rightarrow> nat \<Rightarrow>
    matrix \<times> matrix \<times> matrix \<times> matrix" where
  "assignBlocks membership feature n dimX dimY =
     fold (\<lambda>i (leftX, leftY, rightX, rightY).
             if membership i = LEFT
             then (leftX @ [map (\<lambda>col. feature col i) [1..<Suc dimX]],
                   leftY @ [map (\<lambda>col. feature col i) [dimX + 1..<Suc (dimX + dimY)]],
                   rightX, rightY)
             else (leftX, leftY,
                   rightX @ [map (\<lambda>col. feature col i) [1..<Suc dimX]],
                   rightY @ [map (\<lambda>col. feature col i) [dimX + 1..<Suc (dimX + dimY)]]))
       [1..<Suc n] ([], [], [], [])"

definition INT_MAX :: int where
  "INT_MAX = 2 ^ 31 - 1"

definition ccaSplitAbsoluteDifference :: "(matrix \<Rightarrow> matrix \<Rightarrow> real option) \<Rightarrow> uint \<Rightarrow>
    daughter carray \<Rightarrow> (nat \<Rightarrow> real carray) \<Rightarrow> uint \<Rightarrow> fault + ccaResult" where
  "ccaSplitAbsoluteDifference canCor n membership feature featureCount =
     (if featureCount = 0 \<or> n = 0 then Inl OutOfBounds
      else
        (case toInt (feature (unat featureCount) 1) of
           Inl f \<Rightarrow> Inl f
         | Inr dimX \<Rightarrow>
             (let dimY = sint (featureCount - word_of_int dimX - 1)
              in if dimX > 0 \<and> dimY > 0 then
                   (if int (unat n) \<ge> INT_MAX then Inl SignedOverflow
                    else
                      (let (leftSize, rghtSize) = countDaughters membership (unat n)
                       in if dimX + dimY > INT_MAX then Inl SignedOverflow
                          else if leftSize > dimX + dimY \<and> rghtSize > dimX + dimY then
                            (let (leftX, leftY, rightX, rightY) =
                                   assignBlocks membership feature (unat n) (nat dimX) (nat dimY);
                                 ccaCorLeft = canCor leftX leftY;
                                 ccaCorRight = canCor rightX rightY
                             in if leftSize * rghtSize > INT_MAX then Inl SignedOverflow
                                else Inr \<lparr> ccaCor =
                                             dmul (Some (sqrt (real_of_int (leftSize * rghtSize))))
                                               (dfabs (dsub ccaCorLeft ccaCorRight)),
                                           lapackInputs = [(leftX, leftY), (rightX, rightY)] \<rparr>)
                          else Inr \<lparr> ccaCor = Some 0, lapackInputs = [] \<rparr>))
                 else Inr \<lparr> ccaCor = Some 0, lapackInputs = [] \<rparr>)))"

section \<open>Counting\<close>

text \<open>The sum of the cells \<open>1..K\<close> of a table, as a natural number.\<close>

definition total :: "uint carray \<Rightarrow> nat \<Rightarrow> nat" where
  "total a K = (\<Sum>j = 1..K. unat (a j))"

text \<open>The observations \<open>1..N\<close> of the left and of the right daughter.\<close>

definition leftMembers :: "daughter carray \<Rightarrow> nat \<Rightarrow> nat set" where
  "leftMembers membership N = {i. 1 \<le> i \<and> i \<le> N \<and> membership i = LEFT}"

definition rightMembers :: "daughter carray \<Rightarrow> nat \<Rightarrow> nat set" where
  "rightMembers membership N = {i. 1 \<le> i \<and> i \<le> N \<and> membership i \<noteq> LEFT}"

text \<open>The class label read from a response, and the members of a daughter with a given label.\<close>

definition classOf :: "real \<Rightarrow> nat" where
  "classOf x = nat (trunc x)"

definition classMembers :: "nat set \<Rightarrow> real carray \<Rightarrow> nat \<Rightarrow> nat set" where
  "classMembers D response p = {i \<in> D. classOf (response i) = p}"

text \<open>The sum over the classes \<open>1..M\<close> of the squared class counts of a daughter.\<close>

definition squaredCounts :: "nat set \<Rightarrow> real carray \<Rightarrow> nat \<Rightarrow> nat" where
  "squaredCounts D response M = (\<Sum>p = 1..M. (card (classMembers D response p)) ^ 2)"

text \<open>A double that is not negative when it is finite.\<close>

definition nonnegOpt :: "real option \<Rightarrow> bool" where
  "nonnegOpt x = (case x of None \<Rightarrow> True | Some v \<Rightarrow> 0 \<le> v)"


section \<open>The end-to-end survival example\<close>

lemma example_sums:
  "logrankSums (atRiskTables 4 (arr [LEFT, RIGHT, LEFT, RIGHT]) (arr [1, 2, 3, 4])
     (arr [1, 0, 1, 1]) 3 (arr [1, 3, 4])) 3 = (Some 1, 1 / 2)"
  by code_simp

lemma sqrt_half_not_small: "\<not> sqrt (1 / 2) \<le> 1 / 10 ^ 9"
proof -
  have "(1 / 10 ^ 9 :: real) < sqrt (1 / 2)"
    by (rule real_less_rsqrt) (simp add: power2_eq_square)
  then show ?thesis by simp
qed

lemma example_tables:
  "(let t = atRiskTables 4 (arr [LEFT, RIGHT, LEFT, RIGHT]) (arr [1, 2, 3, 4])
              (arr [1, 0, 1, 1]) 3 (arr [1, 3, 4])
    in (map (nodeParentAtRisk t) [1, 2, 3], map (nodeLeftAtRisk t) [1, 2, 3],
        map (nodeParentEvent t) [1, 2, 3], map (nodeLeftEvent t) [1, 2, 3]))
   = ([4, 2, 1], [2, 1, 0], [1, 1, 1], [1, 1, 0])"
  by code_simp

lemma example_statistic:
  "getCustomSplitStatisticSurvival 4 (arr [LEFT, RIGHT, LEFT, RIGHT]) (arr [1, 2, 3, 4])
     (arr [1, 0, 1, 1]) 3 (arr [1, 3, 4]) = Inr (Some (1 / sqrt (1 / 2)))"
  using sqrt_half_not_small
  by (simp add: getCustomSplitStatisticSurvival_def example_sums zeroGuard_def dfabs_def
      dsqrt_def ddiv_def)

lemma sqrt2_bounds: "1.41421356 \<le> sqrt 2 \<and> sqrt 2 \<le> 1.41421357"
proof
  show "1.41421356 \<le> sqrt 2"
    by (rule real_le_rsqrt) (simp add: power2_eq_square)
  show "sqrt 2 \<le> 1.41421357"
    by (rule real_le_lsqrt) (simp_all add: power2_eq_square)
qed

text \<open>
  Claim C1. For \<open>n = 4\<close>, \<open>time = [1,2,3,4]\<close>, \<open>event = [1,0,1,1]\<close>,
  \<open>membership = [LEFT,RIGHT,LEFT,RIGHT]\<close>, \<open>eventTimeSize = 3\<close> and \<open>eventTime = [1,3,4]\<close>, the
  tables after the sweep and the suffix sum are: parent at risk \<open>[4,2,1]\<close>, left at risk
  \<open>[2,1,0]\<close>, parent events \<open>[1,1,1]\<close>, left events \<open>[1,1,0]\<close>; the accumulated numerator is 1
  and the accumulated denominator 1/2, and the function returns \<open>1 / sqrt (1/2) = sqrt 2\<close>,
  which lies between 1.41421356 and 1.41421357.
\<close>

theorem survival_example:
  "(let t = atRiskTables 4 (arr [LEFT, RIGHT, LEFT, RIGHT]) (arr [1, 2, 3, 4])
              (arr [1, 0, 1, 1]) 3 (arr [1, 3, 4])
    in map (nodeParentAtRisk t) [1, 2, 3] = [4, 2, 1]
       \<and> map (nodeLeftAtRisk t) [1, 2, 3] = [2, 1, 0]
       \<and> map (nodeParentEvent t) [1, 2, 3] = [1, 1, 1]
       \<and> map (nodeLeftEvent t) [1, 2, 3] = [1, 1, 0]
       \<and> logrankSums t 3 = (Some 1, 1 / 2))
   \<and> getCustomSplitStatisticSurvival 4 (arr [LEFT, RIGHT, LEFT, RIGHT]) (arr [1, 2, 3, 4])
        (arr [1, 0, 1, 1]) 3 (arr [1, 3, 4]) = Inr (Some (1 / sqrt (1 / 2)))
   \<and> 1 / sqrt (1 / 2) = sqrt 2
   \<and> \<bar>1 / sqrt (1 / 2) - sqrt 2\<bar> \<le> 1 / 10 ^ 9
   \<and> 1.41421356 \<le> sqrt 2 \<and> sqrt 2 \<le> 1.41421357"
  using example_tables example_sums example_statistic sqrt2_bounds
  by (simp add: Let_def real_sqrt_divide)

section \<open>The sweep and the suffix sum\<close>

declare sweep.simps [simp del]

lemma unat_incr: "unat (x::uint) < 2 ^ 32 - 1 \<Longrightarrow> unat (x + 1) = unat x + 1"
  using unat_add_lem [of x 1] by simp

lemma unat_incr_le: "unat (x + 1 :: uint) \<le> unat x + 1"
  by (simp add: unat_word_ariths)

lemma unat_le_total: "1 \<le> k \<Longrightarrow> k \<le> K \<Longrightarrow> unat (a k) \<le> total a K"
  unfolding total_def by (rule member_le_sum) auto

lemma total_upd:
  assumes "1 \<le> k" "k \<le> K"
  shows "total (a(k := v)) K + unat (a k) = total a K + unat v"
proof -
  have fin: "finite {1..K}" and mem: "k \<in> {1..K}" using assms by auto
  have "total (a(k := v)) K = unat v + (\<Sum>j \<in> {1..K} - {k}. unat ((a(k := v)) j))"
    unfolding total_def using sum.remove [OF fin mem, of "\<lambda>j. unat ((a(k := v)) j)"] by simp
  moreover have "total a K = unat (a k) + (\<Sum>j \<in> {1..K} - {k}. unat (a j))"
    unfolding total_def using sum.remove [OF fin mem, of "\<lambda>j. unat (a j)"] by simp
  moreover have "(\<Sum>j \<in> {1..K} - {k}. unat ((a(k := v)) j)) = (\<Sum>j \<in> {1..K} - {k}. unat (a j))"
    by (rule sum.cong) auto
  ultimately show ?thesis by simp
qed

lemma total_incr:
  assumes "1 \<le> k" "k \<le> K" "total a K < 2 ^ 32 - 1"
  shows "total (incr a k) K = total a K + 1"
proof -
  have "unat (a k) < 2 ^ 32 - 1"
    using unat_le_total [OF assms(1,2), of a] assms(3) by simp
  then have "unat (a k + 1) = unat (a k) + 1" by (rule unat_incr)
  with total_upd [OF assms(1,2), of a "a k + 1"] show ?thesis
    by (simp add: incr_def)
qed

lemma visit_PA [simp]:
  "nodeParentAtRisk (visit m tm ev et i k t) = incr (nodeParentAtRisk t) k"
  by (simp add: visit_def Let_def)

lemma visit_LA [simp]:
  "nodeLeftAtRisk (visit m tm ev et i k t) =
     (if m i = LEFT then incr (nodeLeftAtRisk t) k else nodeLeftAtRisk t)"
  by (simp add: visit_def Let_def)

lemma visit_PE [simp]:
  "nodeParentEvent (visit m tm ev et i k t) =
     (if et k = tm i \<and> ev i > 0 then incr (nodeParentEvent t) k else nodeParentEvent t)"
  by (simp add: visit_def Let_def)

lemma visit_LE [simp]:
  "nodeLeftEvent (visit m tm ev et i k t) =
     (if et k = tm i \<and> ev i > 0 \<and> m i = LEFT then incr (nodeLeftEvent t) k else nodeLeftEvent t)"
  by (simp add: visit_def Let_def)

lemma sweep_stop: "i = 0 \<or> k = 0 \<Longrightarrow> sweep m tm ev et i k t = t"
  using sweep.simps [of m tm ev et i k t] by auto

lemma sweep_visit:
  "0 < i \<Longrightarrow> 0 < k \<Longrightarrow> et k \<le> tm i \<Longrightarrow>
   sweep m tm ev et i k t = sweep m tm ev et (i - 1) k (visit m tm ev et i k t)"
  using sweep.simps [of m tm ev et i k t] by simp

lemma sweep_skip:
  "0 < i \<Longrightarrow> 0 < k \<Longrightarrow> \<not> et k \<le> tm i \<Longrightarrow>
   sweep m tm ev et i k t = sweep m tm ev et i (k - 1) t"
  using sweep.simps [of m tm ev et i k t] by simp

lemma sweep_rule:
  assumes "P i k t"
    and "\<And>i k t. 0 < i \<Longrightarrow> 0 < k \<Longrightarrow> et k \<le> tm i \<Longrightarrow> P i k t \<Longrightarrow> P (i - 1) k (visit m tm ev et i k t)"
    and "\<And>i k t. 0 < i \<Longrightarrow> 0 < k \<Longrightarrow> \<not> et k \<le> tm i \<Longrightarrow> P i k t \<Longrightarrow> P i (k - 1) t"
    and "\<And>i k t. i = 0 \<or> k = 0 \<Longrightarrow> P i k t \<Longrightarrow> Q t"
  shows "Q (sweep m tm ev et i k t)"
  using assms
proof (induction m tm ev et i k t rule: sweep.induct)
  case (1 m tm ev et i k t)
  note inv = "1.prems"(1) and visit = "1.prems"(2) and skip = "1.prems"(3)
    and stop = "1.prems"(4)
  show ?case
  proof (cases "0 < i \<and> 0 < k")
    case False
    then have halt: "i = 0 \<or> k = 0" by auto
    have "Q t" by (rule stop [OF halt inv])
    then show ?thesis by (simp add: sweep_stop [OF halt])
  next
    case pos: True
    then have i: "0 < i" and k: "0 < k" by simp_all
    show ?thesis
    proof (cases "et k \<le> tm i")
      case True
      have "P (i - 1) k (visit m tm ev et i k t)"
        by (rule visit [OF i k True inv])
      from "1.IH"(1) [OF pos True this visit skip stop] show ?thesis
        using i k True by (simp add: sweep_visit)
    next
      case False
      have "P i (k - 1) t"
        by (rule skip [OF i k False inv])
      from "1.IH"(2) [OF pos False this visit skip stop] show ?thesis
        using i k False by (simp add: sweep_skip)
    qed
  qed
qed


declare stepFunction.simps [simp del]

lemma stepFunction_stop: "K \<le> 1 \<Longrightarrow> stepFunction K a = a"
  using stepFunction.simps [of K a] by simp

lemma stepFunction_step:
  "1 < K \<Longrightarrow> stepFunction K a = stepFunction (K - 1) (a(K - 1 := a K + a (K - 1)))"
  using stepFunction.simps [of K a] by simp

lemma stepFunction_sum:
  "stepFunction K a k = (if 1 \<le> k \<and> k < K then (\<Sum>j = k..K. a j) else a k)"
proof (induction K a rule: stepFunction.induct)
  case (1 K a)
  show ?case
  proof (cases "1 < K")
    case False
    then have "K \<le> 1" by simp
    then show ?thesis by (auto simp: stepFunction_stop)
  next
    case True
    define a' where "a' = a(K - 1 := a K + a (K - 1))"
    obtain m where K: "K = Suc (Suc m)"
      using True by (metis One_nat_def Suc_lessE less_imp_Suc_add)
    have IH: "stepFunction (K - 1) a' k = (if 1 \<le> k \<and> k < K - 1 then (\<Sum>j = k..K - 1. a' j) else a' k)"
      unfolding a'_def by (rule "1.IH" [OF True])
    have step: "stepFunction K a k = stepFunction (K - 1) a' k"
      using True by (simp add: stepFunction_step a'_def)
    consider (inner) "1 \<le> k" "k < K - 1" | (last) "k = K - 1" | (out) "k = 0 \<or> K \<le> k"
      using K by fastforce
    then show ?thesis
    proof cases
      case inner
      then have km: "k \<le> m" using K by simp
      have "(\<Sum>j = k..K - 1. a' j) = (\<Sum>j = k..m. a' j) + a' (Suc m)"
        using km K by simp
      also have "(\<Sum>j = k..m. a' j) = (\<Sum>j = k..m. a j)"
        by (rule sum.cong) (auto simp: a'_def K)
      also have "a' (Suc m) = a (Suc (Suc m)) + a (Suc m)"
        by (simp add: a'_def K)
      finally have "(\<Sum>j = k..K - 1. a' j) = (\<Sum>j = k..K. a j)"
        using km K by (simp add: add.commute add.left_commute)
      moreover have "k < K" using inner by simp
      ultimately show ?thesis using inner step IH by simp
    next
      case last
      then have "a' k = (\<Sum>j = k..K. a j)"
        using K by (simp add: a'_def add.commute)
      moreover have "1 \<le> k" "k < K" "\<not> k < K - 1" using last K by simp_all
      ultimately show ?thesis using step IH by simp
    next
      case out
      then have "a' k = a k" using K by (auto simp: a'_def)
      with out step IH K show ?thesis by auto
    qed
  qed
qed

lemma stepFunction_suffix:
  "1 \<le> k \<Longrightarrow> k \<le> K \<Longrightarrow> stepFunction K a k = (\<Sum>j = k..K. a j)"
  by (cases "k = K") (simp_all add: stepFunction_sum)

lemma unat_sum_words:
  fixes a :: "nat \<Rightarrow> uint"
  assumes "finite S" "(\<Sum>j\<in>S. unat (a j)) < 2 ^ 32"
  shows "unat (\<Sum>j\<in>S. a j) = (\<Sum>j\<in>S. unat (a j))"
  using assms
proof (induction S rule: finite_induct)
  case empty
  then show ?case by simp
next
  case (insert x F)
  then have "unat (sum a F) = (\<Sum>j\<in>F. unat (a j))" by simp
  moreover have "unat (a x) + (\<Sum>j\<in>F. unat (a j)) < 2 ^ 32"
    using insert by simp
  ultimately have "unat (a x + sum a F) = unat (a x) + (\<Sum>j\<in>F. unat (a j))"
    using unat_add_lem [of "a x" "sum a F"] by simp
  with insert show ?case by simp
qed

lemma suffix_le_total: "1 \<le> k \<Longrightarrow> (\<Sum>j = k..K. unat (a j)) \<le> total a K"
  unfolding total_def by (rule sum_mono2) auto

lemma unat_stepFunction:
  assumes "1 \<le> k" "k \<le> K" "total a K < 2 ^ 32"
  shows "unat (stepFunction K a k) = (\<Sum>j = k..K. unat (a j))"
proof -
  have "(\<Sum>j = k..K. unat (a j)) < 2 ^ 32"
    using suffix_le_total [OF assms(1), of a K] assms(3) by simp
  then show ?thesis
    using assms by (simp add: stepFunction_suffix unat_sum_words)
qed


lemma atRisk_counts:
  fixes n eventTimeSize :: uint and membership :: "daughter carray"
    and time event eventTime :: "real carray"
  defines "t \<equiv> sweep membership time event eventTime (unat n) (unat eventTimeSize) resetTables"
  shows "total (nodeParentAtRisk t) (unat eventTimeSize) \<le> unat n
         \<and> (\<forall>j. unat (nodeLeftAtRisk t j) \<le> unat (nodeParentAtRisk t j))"
proof -
  define K where "K = unat eventTimeSize"
  define N where "N = unat n"
  have N: "N < 2 ^ 32" unfolding N_def using unsigned_less [of n] by simp
  define P where "P = (\<lambda>i k (t::survTables). k \<le> K \<and> total (nodeParentAtRisk t) K + i \<le> N
                          \<and> (\<forall>j. unat (nodeLeftAtRisk t j) \<le> unat (nodeParentAtRisk t j)))"
  define Q where "Q = (\<lambda>t::survTables. total (nodeParentAtRisk t) K \<le> N
                          \<and> (\<forall>j. unat (nodeLeftAtRisk t j) \<le> unat (nodeParentAtRisk t j)))"
  have init: "P N K resetTables"
    by (simp add: P_def resetTables_def total_def)
  have visit: "P (i - 1) k (visit membership time event eventTime i k t)"
    if "0 < i" "0 < k" "P i k t" for i k t
  proof -
    from that have kK: "1 \<le> k" "k \<le> K" and tot: "total (nodeParentAtRisk t) K + i \<le> N"
      and le: "\<And>j. unat (nodeLeftAtRisk t j) \<le> unat (nodeParentAtRisk t j)"
      by (simp_all add: P_def)
    have small: "total (nodeParentAtRisk t) K < 2 ^ 32 - 1"
      using tot N that(1) by simp
    have tot': "total (incr (nodeParentAtRisk t) k) K = total (nodeParentAtRisk t) K + 1"
      by (rule total_incr [OF kK small])
    have "unat (nodeParentAtRisk t k) < 2 ^ 32 - 1"
      using unat_le_total [OF kK, of "nodeParentAtRisk t"] small by simp
    then have pa: "unat (nodeParentAtRisk t k + 1) = unat (nodeParentAtRisk t k) + 1"
      by (rule unat_incr)
    have "unat (nodeLeftAtRisk t k + 1) \<le> unat (nodeParentAtRisk t k + 1)"
      using unat_incr_le [of "nodeLeftAtRisk t k"] le [of k] pa by simp
    moreover have "unat (nodeLeftAtRisk t k) \<le> unat (nodeParentAtRisk t k + 1)"
      using le [of k] pa by simp
    ultimately show ?thesis
      using kK tot tot' that(1) le by (simp add: P_def incr_def)
  qed
  have "Q (sweep membership time event eventTime N K resetTables)"
  proof (rule sweep_rule [where P = P and Q = Q, OF init])
    show "P (i - 1) k (visit membership time event eventTime i k t)"
      if "0 < i" "0 < k" "eventTime k \<le> time i" "P i k t" for i k t
      using that visit by simp
    show "P i (k - 1) t" if "0 < i" "0 < k" "P i k t" for i k t
      using that by (auto simp: P_def)
    show "Q t" if "P i k t" for i k t
      using that by (simp add: P_def Q_def)
  qed
  then show ?thesis by (simp add: Q_def t_def K_def N_def)
qed


lemma ascending_le:
  fixes tm :: "real carray"
  assumes "\<forall>i. 1 \<le> i \<and> i < N \<longrightarrow> tm i \<le> tm (Suc i)"
  shows "1 \<le> i \<Longrightarrow> i \<le> j \<Longrightarrow> j \<le> N \<Longrightarrow> tm i \<le> tm j"
proof (induction j)
  case 0
  then show ?case by simp
next
  case (Suc j)
  show ?case
  proof (cases "i = Suc j")
    case True
    then show ?thesis by simp
  next
    case False
    with Suc.prems have "i \<le> j" "j \<le> N" "1 \<le> j" "j < N" by simp_all
    with Suc.IH Suc.prems(1) assms have "tm i \<le> tm j" "tm j \<le> tm (Suc j)" by simp_all
    then show ?thesis by simp
  qed
qed

lemma sweep_covers:
  fixes n eventTimeSize :: uint and membership :: "daughter carray"
    and time event eventTime :: "real carray"
  assumes sorted: "\<forall>i. 1 \<le> i \<and> i < unat n \<longrightarrow> time i \<le> time (Suc i)"
    and observed: "\<forall>k. 1 \<le> k \<and> k \<le> unat eventTimeSize \<longrightarrow>
                     (\<exists>i. 1 \<le> i \<and> i \<le> unat n \<and> time i = eventTime k)"
    and k0: "1 \<le> k0" "k0 \<le> unat eventTimeSize"
  shows "\<exists>j. k0 \<le> j \<and> j \<le> unat eventTimeSize \<and>
           nodeParentAtRisk (sweep membership time event eventTime (unat n) (unat eventTimeSize)
              resetTables) j \<noteq> 0"
proof -
  define K where "K = unat eventTimeSize"
  define N where "N = unat n"
  have N: "N < 2 ^ 32" unfolding N_def using unsigned_less [of n] by simp
  define C where "C = (\<lambda>i k (t::survTables) k0.
      (k0 \<le> k \<and> (\<exists>i'. 1 \<le> i' \<and> i' \<le> i \<and> time i' = eventTime k0))
      \<or> (\<exists>j. k0 \<le> j \<and> j \<le> K \<and> nodeParentAtRisk t j \<noteq> 0))"
  define P where "P = (\<lambda>i k (t::survTables). i \<le> N \<and> k \<le> K
      \<and> total (nodeParentAtRisk t) K + i \<le> N
      \<and> (\<forall>k0. 1 \<le> k0 \<and> k0 \<le> K \<longrightarrow> C i k t k0))"
  define Q where "Q = (\<lambda>t::survTables. \<forall>k0. 1 \<le> k0 \<and> k0 \<le> K \<longrightarrow>
      (\<exists>j. k0 \<le> j \<and> j \<le> K \<and> nodeParentAtRisk t j \<noteq> 0))"
  have init: "P N K resetTables"
    using observed by (auto simp: P_def C_def resetTables_def total_def K_def N_def)
  have "Q (sweep membership time event eventTime N K resetTables)"
  proof (rule sweep_rule [where P = P and Q = Q, OF init])
    fix i k t
    assume i: "0 < i" and k: "0 < k" and P: "P i k t"
    from P have iN: "i \<le> N" and kK: "k \<le> K"
      and tot: "total (nodeParentAtRisk t) K + i \<le> N"
      and cov: "\<And>k0. 1 \<le> k0 \<Longrightarrow> k0 \<le> K \<Longrightarrow> C i k t k0"
      by (simp_all add: P_def)
    {
      assume le: "eventTime k \<le> time i"
      let ?t = "visit membership time event eventTime i k t"
      have k1: "1 \<le> k" using k by simp
      have small: "total (nodeParentAtRisk t) K < 2 ^ 32 - 1"
        using tot N i by simp
      have tot': "total (incr (nodeParentAtRisk t) k) K = total (nodeParentAtRisk t) K + 1"
        by (rule total_incr [OF k1 kK small])
      have "unat (nodeParentAtRisk t k) < 2 ^ 32 - 1"
        using unat_le_total [OF k1 kK, of "nodeParentAtRisk t"] small by simp
      then have "unat (nodeParentAtRisk t k + 1) = unat (nodeParentAtRisk t k) + 1"
        by (rule unat_incr)
      then have nz: "nodeParentAtRisk t k + 1 \<noteq> 0"
        by (metis Suc_eq_plus1 nat.simps(3) unat_0)
      have keep: "nodeParentAtRisk ?t j \<noteq> 0" if "nodeParentAtRisk t j \<noteq> 0" for j
        using that nz by (simp add: incr_def)
      have new: "nodeParentAtRisk ?t k \<noteq> 0"
        using nz by (simp add: incr_def)
      have "C (i - 1) k ?t k0" if "1 \<le> k0" "k0 \<le> K" for k0
      proof -
        from cov [OF that] consider
          (A) i' where "k0 \<le> k" "1 \<le> i'" "i' \<le> i" "time i' = eventTime k0"
          | (B) j where "k0 \<le> j" "j \<le> K" "nodeParentAtRisk t j \<noteq> 0"
          unfolding C_def by blast
        then show ?thesis
        proof cases
          case A
          show ?thesis
          proof (cases "i' = i")
            case True
            with A kK new show ?thesis unfolding C_def by blast
          next
            case False
            with A have "i' \<le> i - 1" by simp
            with A show ?thesis unfolding C_def by blast
          qed
        next
          case B
          with keep [of j] show ?thesis unfolding C_def by blast
        qed
      qed
      then show "P (i - 1) k ?t"
        using iN kK tot tot' i by (simp add: P_def)
    }
    {
      assume gt: "\<not> eventTime k \<le> time i"
      have "C i (k - 1) t k0" if "1 \<le> k0" "k0 \<le> K" for k0
      proof -
        from cov [OF that] consider
          (A) i' where "k0 \<le> k" "1 \<le> i'" "i' \<le> i" "time i' = eventTime k0"
          | (B) j where "k0 \<le> j" "j \<le> K" "nodeParentAtRisk t j \<noteq> 0"
          unfolding C_def by blast
        then show ?thesis
        proof cases
          case A
          have "time i' \<le> time i"
            using ascending_le [OF sorted A(2,3)] iN by (simp add: N_def)
          with A gt have "k0 \<noteq> k" by auto
          with A have "k0 \<le> k - 1" by simp
          with A show ?thesis unfolding C_def by blast
        next
          case B
          then show ?thesis unfolding C_def by blast
        qed
      qed
      then show "P i (k - 1) t"
        using iN kK tot by (simp add: P_def)
    }
  next
    fix i k t
    assume "i = 0 \<or> k = 0" and "P i k t"
    then show "Q t"
      unfolding P_def Q_def C_def by fastforce
  qed
  with k0 show ?thesis by (simp add: Q_def K_def N_def)
qed


lemma atRiskTables_PA:
  "nodeParentAtRisk (atRiskTables n membership time event eventTimeSize eventTime) =
     stepFunction (unat eventTimeSize) (nodeParentAtRisk
       (sweep membership time event eventTime (unat n) (unat eventTimeSize) resetTables))"
  by (simp add: atRiskTables_def Let_def)

lemma atRiskTables_LA:
  "nodeLeftAtRisk (atRiskTables n membership time event eventTimeSize eventTime) =
     stepFunction (unat eventTimeSize) (nodeLeftAtRisk
       (sweep membership time event eventTime (unat n) (unat eventTimeSize) resetTables))"
  by (simp add: atRiskTables_def Let_def)

lemma total_mono: "(\<And>j. unat (a j) \<le> unat (b j)) \<Longrightarrow> total a K \<le> total b K"
  unfolding total_def by (rule sum_mono) simp

lemma atRisk_unat:
  fixes n eventTimeSize :: uint and membership :: "daughter carray"
    and time event eventTime :: "real carray"
  defines "raw \<equiv> sweep membership time event eventTime (unat n) (unat eventTimeSize) resetTables"
  defines "t \<equiv> atRiskTables n membership time event eventTimeSize eventTime"
  assumes k: "1 \<le> k" "k \<le> unat eventTimeSize"
  shows "unat (nodeParentAtRisk t k) = (\<Sum>j = k..unat eventTimeSize. unat (nodeParentAtRisk raw j))"
    and "unat (nodeLeftAtRisk t k) = (\<Sum>j = k..unat eventTimeSize. unat (nodeLeftAtRisk raw j))"
    and "(\<Sum>j = k..unat eventTimeSize. unat (nodeParentAtRisk raw j)) \<le> unat n"
proof -
  have cnt: "total (nodeParentAtRisk raw) (unat eventTimeSize) \<le> unat n"
    and le: "\<And>j. unat (nodeLeftAtRisk raw j) \<le> unat (nodeParentAtRisk raw j)"
    using atRisk_counts [of membership time event eventTime n eventTimeSize]
    by (simp_all add: raw_def)
  have n: "unat n < 2 ^ 32" using unsigned_less [of n] by simp
  have pa: "total (nodeParentAtRisk raw) (unat eventTimeSize) < 2 ^ 32"
    using cnt n by simp
  have la: "total (nodeLeftAtRisk raw) (unat eventTimeSize) < 2 ^ 32"
    using total_mono [of "nodeLeftAtRisk raw" "nodeParentAtRisk raw" "unat eventTimeSize"] le pa
    by simp
  show "unat (nodeParentAtRisk t k) = (\<Sum>j = k..unat eventTimeSize. unat (nodeParentAtRisk raw j))"
    unfolding t_def atRiskTables_PA raw_def [symmetric] by (rule unat_stepFunction [OF k pa])
  show "unat (nodeLeftAtRisk t k) = (\<Sum>j = k..unat eventTimeSize. unat (nodeLeftAtRisk raw j))"
    unfolding t_def atRiskTables_LA raw_def [symmetric] by (rule unat_stepFunction [OF k la])
  show "(\<Sum>j = k..unat eventTimeSize. unat (nodeParentAtRisk raw j)) \<le> unat n"
    using suffix_le_total [OF k(1), of "nodeParentAtRisk raw" "unat eventTimeSize"] cnt by simp
qed

text \<open>
  Claim C5. In \<^verbatim>\<open>getCustomSplitStatisticSurvival\<close>, after the sweep and the suffix sum
  the at-risk tables are step functions: for every \<open>k\<close> in \<open>[1, eventTimeSize - 1]\<close>,
  \<open>nodeParentAtRisk[k] \<ge> nodeParentAtRisk[k+1]\<close>, and for every \<open>k\<close> in \<open>[1, eventTimeSize]\<close>,
  \<open>nodeParentAtRisk[k] \<ge> nodeLeftAtRisk[k] \<ge> 0\<close>. The comparisons are those of
  \<^verbatim>\<open>unsigned int\<close>; no count wraps, since the counts of the sweep add up to at most \<open>n\<close>.
  This holds for every input, sorted or not.
\<close>

theorem atRisk_step_function:
  fixes n eventTimeSize :: uint and membership :: "daughter carray"
    and time event eventTime :: "real carray"
  assumes k: "1 \<le> k" "k \<le> unat eventTimeSize"
  shows "(k < unat eventTimeSize \<longrightarrow>
           nodeParentAtRisk (atRiskTables n membership time event eventTimeSize eventTime) (k + 1)
           \<le> nodeParentAtRisk (atRiskTables n membership time event eventTimeSize eventTime) k)
       \<and> nodeLeftAtRisk (atRiskTables n membership time event eventTimeSize eventTime) k
           \<le> nodeParentAtRisk (atRiskTables n membership time event eventTimeSize eventTime) k
       \<and> 0 \<le> nodeLeftAtRisk (atRiskTables n membership time event eventTimeSize eventTime) k"
proof -
  let ?K = "unat eventTimeSize"
  let ?raw = "sweep membership time event eventTime (unat n) ?K resetTables"
  let ?t = "atRiskTables n membership time event eventTimeSize eventTime"
  have le: "\<And>j. unat (nodeLeftAtRisk ?raw j) \<le> unat (nodeParentAtRisk ?raw j)"
    using atRisk_counts [of membership time event eventTime n eventTimeSize] by simp
  have "unat (nodeLeftAtRisk ?t k) \<le> unat (nodeParentAtRisk ?t k)"
    unfolding atRisk_unat(1,2) [OF k] by (rule sum_mono) (rule le)
  then have left: "nodeLeftAtRisk ?t k \<le> nodeParentAtRisk ?t k"
    by (simp add: word_le_nat_alt)
  have "nodeParentAtRisk ?t (k + 1) \<le> nodeParentAtRisk ?t k" if "k < ?K"
  proof -
    have k': "1 \<le> k + 1" "k + 1 \<le> ?K" using that by simp_all
    have "unat (nodeParentAtRisk ?t (k + 1)) \<le> unat (nodeParentAtRisk ?t k)"
      unfolding atRisk_unat(1) [OF k] atRisk_unat(1) [OF k'] by (rule sum_mono2) auto
    then show ?thesis by (simp add: word_le_nat_alt)
  qed
  with left show ?thesis by simp
qed

theorem atRisk_step_function_witness:
  "nodeParentAtRisk (atRiskTables 4 (arr [LEFT, RIGHT, LEFT, RIGHT]) (arr [1, 2, 3, 4])
        (arr [1, 0, 1, 1]) 3 (arr [1, 3, 4])) (1 + 1)
     \<le> nodeParentAtRisk (atRiskTables 4 (arr [LEFT, RIGHT, LEFT, RIGHT]) (arr [1, 2, 3, 4])
        (arr [1, 0, 1, 1]) 3 (arr [1, 3, 4])) 1
   \<and> nodeLeftAtRisk (atRiskTables 4 (arr [LEFT, RIGHT, LEFT, RIGHT]) (arr [1, 2, 3, 4])
        (arr [1, 0, 1, 1]) 3 (arr [1, 3, 4])) 1
     \<le> nodeParentAtRisk (atRiskTables 4 (arr [LEFT, RIGHT, LEFT, RIGHT]) (arr [1, 2, 3, 4])
        (arr [1, 0, 1, 1]) 3 (arr [1, 3, 4])) 1"
  using atRisk_step_function [of 1 3 4 "arr [LEFT, RIGHT, LEFT, RIGHT]" "arr [1, 2, 3, 4]"
      "arr [1, 0, 1, 1]" "arr [1, 3, 4]"]
  by simp

section \<open>The regression statistic\<close>

lemma leftMembers_0 [simp]: "leftMembers m 0 = {}"
  by (auto simp: leftMembers_def)

lemma rightMembers_0 [simp]: "rightMembers m 0 = {}"
  by (auto simp: rightMembers_def)

lemma leftMembers_Suc:
  "leftMembers m (Suc N) = (if m (Suc N) = LEFT then insert (Suc N) (leftMembers m N) else leftMembers m N)"
  by (auto simp: leftMembers_def le_Suc_eq)

lemma rightMembers_Suc:
  "rightMembers m (Suc N) = (if m (Suc N) = LEFT then rightMembers m N else insert (Suc N) (rightMembers m N))"
  by (auto simp: rightMembers_def le_Suc_eq)

lemma finite_leftMembers [simp]: "finite (leftMembers m N)"
  by (rule finite_subset [of _ "{1..N}"]) (auto simp: leftMembers_def)

lemma finite_rightMembers [simp]: "finite (rightMembers m N)"
  by (rule finite_subset [of _ "{1..N}"]) (auto simp: rightMembers_def)

lemma Suc_notin_leftMembers [simp]: "Suc N \<notin> leftMembers m N"
  by (simp add: leftMembers_def)

lemma Suc_notin_rightMembers [simp]: "Suc N \<notin> rightMembers m N"
  by (simp add: rightMembers_def)

lemma card_members: "card (leftMembers m N) + card (rightMembers m N) = N"
  by (induction N) (simp_all add: leftMembers_Suc rightMembers_Suc)

lemma regression_fold:
  "fold (regressionStep m response mean) [1..<Suc N] (0, 0, 0, 0) =
     (\<Sum>i\<in>leftMembers m N. response i - mean, of_nat (card (leftMembers m N)),
      \<Sum>i\<in>rightMembers m N. response i - mean, of_nat (card (rightMembers m N)))"
proof (induction N)
  case 0
  then show ?case by simp
next
  case (Suc N)
  have "[1..<Suc (Suc N)] = [1..<Suc N] @ [Suc N]" by simp
  then show ?case
    using Suc by (simp add: regressionStep_def leftMembers_Suc rightMembers_Suc del: upt_Suc)
qed

lemma unat_uint_less: "unat (n::uint) < 2 ^ 32"
  using unsigned_less [of n] by simp

lemma unat_of_card:
  fixes n :: uint
  assumes "c \<le> unat n"
  shows "unat (of_nat c :: uint) = c"
proof -
  have "c < 2 ^ 32" using assms unat_uint_less [of n] by simp
  then show ?thesis by (simp add: unat_of_nat)
qed

lemma dbl_card_left: "dbl (of_nat (card (leftMembers m (unat (n::uint))))) = real (card (leftMembers m (unat n)))"
  using card_members [of m "unat n"] by (simp add: dbl_def unat_of_card [of _ n])

lemma dbl_card_right: "dbl (of_nat (card (rightMembers m (unat (n::uint))))) = real (card (rightMembers m (unat n)))"
  using card_members [of m "unat n"] by (simp add: dbl_def unat_of_card [of _ n])

text \<open>
  Claim C7. For a node with both daughters non-empty and \<open>variance \<noteq> 0\<close>,
  \<^verbatim>\<open>getCustomSplitStatisticMultivariateRegression\<close> returns
  \<open>sumLeft\<^sup>2 / (leftSize * variance) + sumRght\<^sup>2 / (rghtSize * variance)\<close>, where \<open>sumLeft\<close> and
  \<open>sumRght\<close> are the summed deviations from \<open>mean\<close> over each daughter; when every response
  equals \<open>mean\<close> it returns exactly 0. The node has fewer than \<open>UINT_MAX\<close> observations: at
  \<open>n = UINT_MAX\<close> the loop over the observations never exits.
\<close>

theorem regression_statistic:
  fixes n :: uint
  assumes "n \<noteq> - 1"
    and "leftMembers membership (unat n) \<noteq> {}"
    and "rightMembers membership (unat n) \<noteq> {}"
    and "variance \<noteq> 0"
  shows "getCustomSplitStatisticMultivariateRegression n membership response mean variance =
           Inr (Some ((\<Sum>i\<in>leftMembers membership (unat n). response i - mean) ^ 2
                        / (real (card (leftMembers membership (unat n))) * variance)
                    + (\<Sum>i\<in>rightMembers membership (unat n). response i - mean) ^ 2
                        / (real (card (rightMembers membership (unat n))) * variance)))
         \<and> ((\<forall>i. 1 \<le> i \<and> i \<le> unat n \<longrightarrow> response i = mean) \<longrightarrow>
              getCustomSplitStatisticMultivariateRegression n membership response mean variance
                = Inr (Some 0))"
proof -
  have l: "card (leftMembers membership (unat n)) \<noteq> 0"
    and r: "card (rightMembers membership (unat n)) \<noteq> 0"
    using assms(2,3) by simp_all
  have eq: "getCustomSplitStatisticMultivariateRegression n membership response mean variance =
           Inr (Some ((\<Sum>i\<in>leftMembers membership (unat n). response i - mean) ^ 2
                        / (real (card (leftMembers membership (unat n))) * variance)
                    + (\<Sum>i\<in>rightMembers membership (unat n). response i - mean) ^ 2
                        / (real (card (rightMembers membership (unat n))) * variance)))"
    unfolding getCustomSplitStatisticMultivariateRegression_def regression_fold
    using assms(1,4) l r
    by (simp add: dbl_card_left dbl_card_right ddiv_def dadd_def del: upt_Suc)
  have "(\<Sum>i\<in>leftMembers membership (unat n). response i - mean) = 0"
    "(\<Sum>i\<in>rightMembers membership (unat n). response i - mean) = 0"
    if "\<forall>i. 1 \<le> i \<and> i \<le> unat n \<longrightarrow> response i = mean"
    using that by (simp_all add: leftMembers_def rightMembers_def)
  with eq show ?thesis by simp
qed

theorem regression_statistic_witness:
  "getCustomSplitStatisticMultivariateRegression 4 (arr [LEFT, RIGHT, LEFT, RIGHT])
     (arr [5, 5, 5, 5]) 5 2 = Inr (Some 0)"
proof -
  have l: "leftMembers (arr [LEFT, RIGHT, LEFT, RIGHT]) (unat (4::uint)) \<noteq> {}"
    and r: "rightMembers (arr [LEFT, RIGHT, LEFT, RIGHT]) (unat (4::uint)) \<noteq> {}"
    by (auto simp: leftMembers_def rightMembers_def arr_def intro: exI [of _ 1] exI [of _ 2])
  have all: "\<forall>i. 1 \<le> i \<and> i \<le> unat (4::uint) \<longrightarrow> arr [5, 5, 5, 5::real] i = 5"
    by (auto simp: arr_def nth_Cons split: nat.splits)
  have "(4::uint) \<noteq> - 1" "(2::real) \<noteq> 0" by simp_all
  from regression_statistic [OF this(1) l r this(2), of "arr [5, 5, 5, 5]" 5] all
  show ?thesis by blast
qed

section \<open>Rounding to the nearest double\<close>

lemma pow2_powr: "pow2 e = 2 powr (of_int e)"
  by (simp add: pow2_def powr_int)

lemma pow2_pos: "0 < pow2 e"
  by (simp add: pow2_powr)

lemma pow2_add: "pow2 (a + b) = pow2 a * pow2 b"
  by (simp add: pow2_powr powr_add)

lemma pow2_le: "a \<le> b \<Longrightarrow> pow2 a \<le> pow2 b"
  by (simp add: pow2_powr)

lemma pow2_less_iff: "pow2 a < pow2 b \<longleftrightarrow> a < b"
  by (simp add: pow2_powr)

lemma pow2_nat: "pow2 (int k) = 2 ^ k"
  by (simp add: pow2_def)

lemma binade_bounds:
  assumes "x \<noteq> 0"
  shows "pow2 (binade x) \<le> \<bar>x\<bar> \<and> \<bar>x\<bar> < pow2 (binade x + 1)"
proof (cases "1 \<le> \<bar>x\<bar>")
  case True
  define k where "k = \<lfloor>\<bar>x\<bar>\<rfloor>"
  have k: "0 < k" unfolding k_def using True by simp
  define b where "b = bitlen k"
  from bitlen_bounds [OF k] have lo: "2 ^ nat (b - 1) \<le> k" and hi: "k < 2 ^ nat b"
    unfolding b_def by simp_all
  have b1: "1 \<le> b"
  proof (rule ccontr)
    assume "\<not> 1 \<le> b"
    then have "nat b = 0" by simp
    with hi k show False by simp
  qed
  have e: "binade x = b - 1" using True by (simp add: binade_def b_def k_def)
  have "pow2 (b - 1) = real_of_int (2 ^ nat (b - 1))" using b1 by (simp add: pow2_def)
  also have "\<dots> \<le> real_of_int k" using lo by (simp only: of_int_le_iff)
  also have "\<dots> \<le> \<bar>x\<bar>" unfolding k_def by simp
  finally have A: "pow2 (b - 1) \<le> \<bar>x\<bar>" .
  have "k + 1 \<le> 2 ^ nat b" using hi by simp
  then have "real_of_int (k + 1) \<le> real_of_int (2 ^ nat b)" by (simp only: of_int_le_iff)
  then have B: "real_of_int (k + 1) \<le> 2 ^ nat b" by simp
  have "\<bar>x\<bar> < real_of_int (k + 1)" unfolding k_def by linarith
  also note B
  also have "(2::real) ^ nat b = pow2 b" using b1 by (simp add: pow2_def)
  finally show ?thesis using A e by simp
next
  case False
  define y where "y = 1 / \<bar>x\<bar>"
  have x: "0 < \<bar>x\<bar>" "\<bar>x\<bar> < 1" using assms False by simp_all
  have y1: "1 < y" unfolding y_def using x by simp
  define a where "a = \<lceil>y\<rceil> - 1"
  have a: "0 < a" unfolding a_def using y1 by linarith
  define b where "b = bitlen a"
  from bitlen_bounds [OF a] have lo: "2 ^ nat (b - 1) \<le> a" and hi: "a < 2 ^ nat b"
    unfolding b_def by simp_all
  have b1: "1 \<le> b"
  proof (rule ccontr)
    assume "\<not> 1 \<le> b"
    then have "nat b = 0" by simp
    with hi a show False by simp
  qed
  have e: "binade x = - b" using False by (simp add: binade_def b_def a_def y_def)
  have "real_of_int (2 ^ nat (b - 1)) \<le> real_of_int a" using lo by (simp only: of_int_le_iff)
  then have "(2::real) ^ nat (b - 1) \<le> real_of_int a" by simp
  also have "real_of_int a < y" unfolding a_def by linarith
  finally have ylo: "2 ^ nat (b - 1) < y" .
  have "a + 1 \<le> 2 ^ nat b" using hi by simp
  then have "real_of_int (a + 1) \<le> real_of_int (2 ^ nat b)" by (simp only: of_int_le_iff)
  then have "real_of_int (a + 1) \<le> 2 ^ nat b" by simp
  moreover have "y \<le> real_of_int (a + 1)" unfolding a_def by simp
  ultimately have yhi: "y \<le> 2 ^ nat b" by (rule order_trans [rotated])
  have xy: "\<bar>x\<bar> = 1 / y" unfolding y_def by simp
  have ypos: "0 < y" using y1 by simp
  have "pow2 (- b) = 1 / 2 ^ nat b"
    using b1 by (simp add: pow2_def)
  also have "\<dots> \<le> 1 / y" using yhi ypos by (simp add: frac_le)
  finally have A: "pow2 (- b) \<le> \<bar>x\<bar>" unfolding xy .
  have "1 / y < 1 / 2 ^ nat (b - 1)" using ylo by (simp add: frac_less2)
  also have "\<dots> = pow2 (- b + 1)"
  proof (cases "b = 1")
    case True
    then show ?thesis by (simp add: pow2_def)
  next
    case False
    with b1 have "\<not> 0 \<le> - b + 1" "nat (- (- b + 1)) = nat (b - 1)" by simp_all
    then show ?thesis by (simp add: pow2_def)
  qed
  finally have "\<bar>x\<bar> < pow2 (- b + 1)" unfolding xy .
  with A e show ?thesis by simp
qed

lemma binade_unique:
  assumes "pow2 e \<le> \<bar>x\<bar>" "\<bar>x\<bar> < pow2 (e + 1)"
  shows "binade x = e"
proof -
  have "x \<noteq> 0" using assms(1) pow2_pos [of e] by auto
  from binade_bounds [OF this] have b: "pow2 (binade x) \<le> \<bar>x\<bar>" "\<bar>x\<bar> < pow2 (binade x + 1)"
    by simp_all
  have "pow2 e < pow2 (binade x + 1)" using assms(1) b(2) by simp
  then have "e < binade x + 1" by (simp only: pow2_less_iff)
  moreover have "pow2 (binade x) < pow2 (e + 1)" using assms(2) b(1) by simp
  then have "binade x < e + 1" by (simp only: pow2_less_iff)
  ultimately show ?thesis by simp
qed

lemma roundEven_int [simp]: "roundEven (of_int k) = k"
  by (simp add: roundEven_def)

lemma roundEven_le: "m \<le> of_int k \<Longrightarrow> roundEven m \<le> k"
proof -
  assume m: "m \<le> of_int k"
  show ?thesis
  proof (cases "m = of_int k")
    case True
    then show ?thesis by simp
  next
    case False
    with m have "m < of_int k" by simp
    then have "\<lfloor>m\<rfloor> < k" by (simp add: floor_less_iff)
    then have "\<lfloor>m\<rfloor> + 1 \<le> k" by simp
    then show ?thesis by (simp add: roundEven_def Let_def)
  qed
qed

lemma roundEven_nonneg: "0 \<le> m \<Longrightarrow> 0 \<le> roundEven m"
  by (simp add: roundEven_def Let_def)

lemma roundEven_near:
  assumes "\<bar>m - of_int k\<bar> < 1 / 2"
  shows "roundEven m = k"
proof (cases "of_int k \<le> m")
  case True
  then have "\<lfloor>m\<rfloor> = k" using assms unfolding floor_eq_iff by linarith
  then show ?thesis using assms True by (simp add: roundEven_def Let_def)
next
  case False
  then have "\<lfloor>m\<rfloor> = k - 1" using assms unfolding floor_eq_iff by simp
  then show ?thesis using assms False by (simp add: roundEven_def Let_def)
qed

lemma roundEven_tie:
  assumes "m = of_int k + 1 / 2"
  shows "roundEven m = (if even k then k else k + 1)"
proof -
  have "\<lfloor>m\<rfloor> = k" using assms by (simp add: floor_eq_iff)
  then show ?thesis using assms by (simp add: roundEven_def Let_def)
qed

lemma nearest_eval:
  assumes "pow2 e \<le> \<bar>x\<bar>" "\<bar>x\<bar> < pow2 (e + 1)"
  shows "nearest x = of_int (roundEven (x / pow2 (e - 52))) * pow2 (e - 52)"
proof -
  have "x \<noteq> 0" using assms(1) pow2_pos [of e] by auto
  then show ?thesis by (simp add: nearest_def Let_def binade_unique [OF assms])
qed

lemma nat_scaled:
  assumes "x \<noteq> 0" "\<bar>x\<bar> \<le> real N" "N < 2 ^ 53"
  shows "\<exists>K. real N / pow2 (binade x - 52) = of_int K"
proof -
  from binade_bounds [OF assms(1)] have "pow2 (binade x) \<le> \<bar>x\<bar>" by simp
  also have "\<dots> \<le> real N" by (rule assms(2))
  also have "\<dots> < real (2 ^ 53)" using assms(3) by (simp only: of_nat_less_iff)
  also have "\<dots> = pow2 53" by (simp add: pow2_def)
  finally have "binade x < 53" by (simp only: pow2_less_iff)
  then have e: "binade x - 52 \<le> 0" by simp
  define j where "j = nat (52 - binade x)"
  have u: "pow2 (binade x - 52) = 1 / 2 ^ j"
  proof (cases "binade x - 52 = 0")
    case True
    then show ?thesis by (simp add: pow2_def j_def)
  next
    case False
    with e have "\<not> 0 \<le> binade x - 52" by simp
    then show ?thesis by (simp add: pow2_def j_def)
  qed
  have "real N / pow2 (binade x - 52) = of_int (int N * 2 ^ j)"
    unfolding u by simp
  then show ?thesis ..
qed

lemma nearest_nat:
  assumes "N < 2 ^ 53"
  shows "nearest (real N) = real N"
proof (cases "N = 0")
  case True
  then show ?thesis by (simp add: nearest_def)
next
  case False
  then have nz: "real N \<noteq> 0" by simp
  from nat_scaled [OF nz _ assms] obtain K where K: "real N / pow2 (binade (real N) - 52) = of_int K"
    by auto
  have "nearest (real N) = of_int (roundEven (real N / pow2 (binade (real N) - 52)))
      * pow2 (binade (real N) - 52)"
    using nz by (simp add: nearest_def Let_def)
  also have "\<dots> = real N / pow2 (binade (real N) - 52) * pow2 (binade (real N) - 52)"
    unfolding K by simp
  also have "\<dots> = real N" using pow2_pos [of "binade (real N) - 52"] by simp
  finally show ?thesis .
qed

lemma nearest_nonneg:
  assumes "0 \<le> x"
  shows "0 \<le> nearest x"
proof (cases "x = 0")
  case True
  then show ?thesis by (simp add: nearest_def)
next
  case False
  have "0 \<le> x / pow2 (binade x - 52)" using assms pow2_pos [of "binade x - 52"] by simp
  then have "0 \<le> roundEven (x / pow2 (binade x - 52))" by (rule roundEven_nonneg)
  then show ?thesis
    using False pow2_pos [of "binade x - 52"] by (simp add: nearest_def Let_def)
qed


lemma roundEven_floor: "\<lfloor>m\<rfloor> \<le> roundEven m" and roundEven_ceil: "roundEven m \<le> \<lfloor>m\<rfloor> + 1"
  by (simp_all add: roundEven_def Let_def)

lemma roundEven_ge: "of_int k \<le> m \<Longrightarrow> k \<le> roundEven m"
proof -
  assume "of_int k \<le> m"
  then have "k \<le> \<lfloor>m\<rfloor>" by (simp add: le_floor_iff)
  also have "\<dots> \<le> roundEven m" by (rule roundEven_floor)
  finally show ?thesis .
qed

lemma roundEven_mono:
  assumes "a \<le> b"
  shows "roundEven a \<le> roundEven b"
proof (cases "\<lfloor>a\<rfloor> = \<lfloor>b\<rfloor>")
  case True
  then show ?thesis using assms by (auto simp: roundEven_def Let_def)
next
  case False
  moreover have "\<lfloor>a\<rfloor> \<le> \<lfloor>b\<rfloor>" using assms by (rule floor_mono)
  ultimately have "\<lfloor>a\<rfloor> + 1 \<le> \<lfloor>b\<rfloor>" by simp
  with roundEven_ceil [of a] roundEven_floor [of b] show ?thesis by simp
qed

lemma pow2_split: "pow2 e = 2 ^ 52 * pow2 (e - 52)" "pow2 (e + 1) = 2 ^ 53 * pow2 (e - 52)"
proof -
  have "pow2 (52 + (e - 52)) = pow2 52 * pow2 (e - 52)" by (rule pow2_add)
  moreover have "52 + (e - 52) = e" by simp
  ultimately have "pow2 e = pow2 52 * pow2 (e - 52)" by (simp only:)
  then show "pow2 e = 2 ^ 52 * pow2 (e - 52)" by (simp add: pow2_def)
  have "pow2 (53 + (e - 52)) = pow2 53 * pow2 (e - 52)" by (rule pow2_add)
  moreover have "53 + (e - 52) = e + 1" by simp
  ultimately have "pow2 (e + 1) = pow2 53 * pow2 (e - 52)" by (simp only:)
  then show "pow2 (e + 1) = 2 ^ 53 * pow2 (e - 52)" by (simp add: pow2_def)
qed

lemma nearest_binade:
  assumes "0 < x"
  shows "pow2 (binade x) \<le> nearest x" and "nearest x \<le> pow2 (binade x + 1)"
proof -
  define u where "u = pow2 (binade x - 52)"
  have u: "0 < u" unfolding u_def by (rule pow2_pos)
  from assms have nz: "x \<noteq> 0" and ax: "\<bar>x\<bar> = x" by simp_all
  have p: "pow2 (binade x) = 2 ^ 52 * u" "pow2 (binade x + 1) = 2 ^ 53 * u"
    unfolding u_def by (rule pow2_split)+
  from binade_bounds [OF nz] have lo: "2 ^ 52 * u \<le> x" and hi: "x < 2 ^ 53 * u"
    unfolding ax p by simp_all
  have n: "nearest x = of_int (roundEven (x / u)) * u"
    using nz by (simp add: nearest_def Let_def u_def)
  have "real_of_int (2 ^ 52) \<le> x / u" using lo u by (simp add: le_divide_eq)
  then have "2 ^ 52 \<le> roundEven (x / u)" by (rule roundEven_ge)
  then have "real_of_int (2 ^ 52) \<le> real_of_int (roundEven (x / u))" by (simp only: of_int_le_iff)
  then have "real_of_int (2 ^ 52) * u \<le> real_of_int (roundEven (x / u)) * u"
    using u by (simp add: mult_right_mono)
  then show "pow2 (binade x) \<le> nearest x"
    unfolding n p by simp
  have "x / u \<le> real_of_int (2 ^ 53)" using hi u by (simp add: divide_le_eq)
  then have "roundEven (x / u) \<le> 2 ^ 53" by (rule roundEven_le)
  then have "real_of_int (roundEven (x / u)) \<le> real_of_int (2 ^ 53)" by (simp only: of_int_le_iff)
  then have "real_of_int (roundEven (x / u)) * u \<le> real_of_int (2 ^ 53) * u"
    using u by (simp add: mult_right_mono)
  then show "nearest x \<le> pow2 (binade x + 1)"
    unfolding n p by simp
qed

lemma nearest_mono:
  assumes "0 \<le> x" "x \<le> y"
  shows "nearest x \<le> nearest y"
proof (cases "x = 0")
  case True
  have "0 \<le> nearest y" using assms by (intro nearest_nonneg) simp
  with True show ?thesis by (simp add: nearest_def)
next
  case False
  with assms have x: "0 < x" and y: "0 < y" by simp_all
  then have ax: "\<bar>x\<bar> = x" "\<bar>y\<bar> = y" "x \<noteq> 0" "y \<noteq> 0" by simp_all
  from binade_bounds [OF ax(3)] binade_bounds [OF ax(4)]
  have "pow2 (binade x) \<le> x" "y < pow2 (binade y + 1)" unfolding ax by simp_all
  with assms(2) have "pow2 (binade x) < pow2 (binade y + 1)" by simp
  then have le: "binade x \<le> binade y" unfolding pow2_less_iff by simp
  show ?thesis
  proof (cases "binade x = binade y")
    case True
    define u where "u = pow2 (binade y - 52)"
    have u: "0 < u" unfolding u_def by (rule pow2_pos)
    have "x / u \<le> y / u" using assms(2) u by (simp add: divide_right_mono)
    then have "roundEven (x / u) \<le> roundEven (y / u)" by (rule roundEven_mono)
    then have "real_of_int (roundEven (x / u)) \<le> real_of_int (roundEven (y / u))"
      by (simp only: of_int_le_iff)
    then have "real_of_int (roundEven (x / u)) * u \<le> real_of_int (roundEven (y / u)) * u"
      using u by (simp add: mult_right_mono)
    then show ?thesis using ax(3,4) True by (simp add: nearest_def Let_def u_def)
  next
    case False
    with le have "binade x + 1 \<le> binade y" by simp
    then have "pow2 (binade x + 1) \<le> pow2 (binade y)" by (rule pow2_le)
    with nearest_binade(2) [OF x] nearest_binade(1) [OF y] show ?thesis by simp
  qed
qed

lemma nearest_0 [simp]: "nearest 0 = 0"
  by (simp add: nearest_def)

lemma nearest_1 [simp]: "nearest 1 = 1"
  using nearest_nat [of 1] by simp

section \<open>The classification statistic\<close>

lemma forEach_append:
  "forEach body (xs @ ys) s = (case forEach body xs s of Inl f \<Rightarrow> Inl f | Inr s' \<Rightarrow> forEach body ys s')"
  by (induction xs arbitrary: s) (auto split: sum.splits)

lemma sum_squares_le_square_sum:
  fixes f :: "'a \<Rightarrow> real"
  assumes "finite A" "\<And>x. x \<in> A \<Longrightarrow> 0 \<le> f x"
  shows "(\<Sum>x\<in>A. (f x) ^ 2) \<le> (\<Sum>x\<in>A. f x) ^ 2"
  using assms
proof (induction A rule: finite_induct)
  case empty
  then show ?case by simp
next
  case (insert a F)
  have S: "0 \<le> sum f F" by (rule sum_nonneg) (simp add: insert.prems)
  have a: "0 \<le> f a" by (simp add: insert.prems)
  have "(\<Sum>x\<in>F. (f x) ^ 2) \<le> (sum f F) ^ 2" using insert by simp
  moreover have "(f a + sum f F) ^ 2 = (f a) ^ 2 + 2 * f a * sum f F + (sum f F) ^ 2"
    by (simp add: power2_sum)
  moreover have "0 \<le> 2 * f a * sum f F" using S a by simp
  ultimately show ?case using insert.hyps by simp
qed

lemma classMembers_insert:
  "classMembers (insert i D) response p =
     (if classOf (response i) = p then insert i (classMembers D response p)
      else classMembers D response p)"
  by (auto simp: classMembers_def)

lemma classMembers_empty [simp]: "classMembers {} response p = {}"
  by (simp add: classMembers_def)

lemma classMembers_subset: "classMembers D response p \<subseteq> D"
  by (auto simp: classMembers_def)

lemma finite_classMembers: "finite D \<Longrightarrow> finite (classMembers D response p)"
  using classMembers_subset by (rule finite_subset)

lemma sum_card_classMembers:
  assumes "finite D"
  shows "(\<Sum>p = 1..M. card (classMembers D response p)) \<le> card D"
proof -
  have "(\<Sum>p\<in>{1..M}. card (classMembers D response p)) = card (\<Union>p\<in>{1..M}. classMembers D response p)"
  proof (rule card_UN_disjoint [symmetric])
    show "finite {1..M}" by simp
    show "\<forall>p\<in>{1..M}. finite (classMembers D response p)"
      by (simp add: finite_classMembers [OF assms])
    show "\<forall>p\<in>{1..M}. \<forall>q\<in>{1..M}. p \<noteq> q \<longrightarrow>
            classMembers D response p \<inter> classMembers D response q = {}"
      by (auto simp: classMembers_def)
  qed
  also have "\<dots> \<le> card D"
    by (rule card_mono [OF assms]) (auto simp: classMembers_def)
  finally show ?thesis .
qed

lemma unat_word_of_int:
  "0 \<le> z \<Longrightarrow> z < 2 ^ 32 \<Longrightarrow> unat (word_of_int z :: uint) = nat z"
proof -
  assume z: "0 \<le> z" "z < 2 ^ 32"
  then have "nat z < 2 ^ 32" by (simp add: nat_less_iff)
  moreover have "(word_of_int z :: uint) = of_nat (nat z)" using z by simp
  ultimately show ?thesis by (simp add: unat_of_nat)
qed

lemma toUInt_class:
  fixes maxLevel :: uint
  assumes "0 \<le> x" "x < real M + 1" and M: "M = unat maxLevel"
  shows "\<exists>c. toUInt x = Inr c \<and> unat c = classOf x \<and> \<not> maxLevel < c \<and> classOf x \<le> M"
proof -
  have fl: "trunc x = \<lfloor>x\<rfloor>" using assms(1) by (simp add: trunc_def)
  have lo: "0 \<le> \<lfloor>x\<rfloor>" using assms(1) by simp
  have "x < of_int (int M + 1)" using assms(2) by simp
  then have "\<lfloor>x\<rfloor> < int M + 1" by (simp only: floor_less_iff)
  then have hi: "\<lfloor>x\<rfloor> \<le> int M" by simp
  have M32: "M < 2 ^ 32" unfolding M by (rule unat_uint_less)
  then have iM: "int M < 2 ^ 32" by (simp flip: of_nat_less_iff)
  have "real M + 1 \<le> 2 ^ 32"
  proof -
    have "Suc M \<le> 2 ^ 32" using M32 by simp
    then have "real (Suc M) \<le> real (2 ^ 32)" by (simp only: of_nat_le_iff)
    then show ?thesis by simp
  qed
  with assms(2) have x32: "x < 2 ^ 32" by simp
  have f32: "\<lfloor>x\<rfloor> < 2 ^ 32" using hi iM by linarith
  have u: "unat (word_of_int \<lfloor>x\<rfloor> :: uint) = nat \<lfloor>x\<rfloor>"
    by (rule unat_word_of_int [OF lo f32])
  have le: "nat \<lfloor>x\<rfloor> \<le> M" using hi by simp
  then have "\<not> maxLevel < (word_of_int \<lfloor>x\<rfloor> :: uint)"
    using u by (simp add: word_less_nat_alt M)
  then show ?thesis
    using assms(1) x32 u le by (simp add: toUInt_def fl classOf_def)
qed


lemma tally_insert:
  assumes "finite D" "i \<notin> D"
  shows "incr (\<lambda>p. of_nat (card (classMembers D response p))) (classOf (response i)) =
           (\<lambda>p. of_nat (card (classMembers (insert i D) response p)))"
proof
  fix p
  have "i \<notin> classMembers D response q" for q using assms(2) by (simp add: classMembers_def)
  moreover have "finite (classMembers D response q)" for q by (rule finite_classMembers [OF assms(1)])
  ultimately show "incr (\<lambda>p. of_nat (card (classMembers D response p))) (classOf (response i)) p =
           of_nat (card (classMembers (insert i D) response p))"
    by (simp add: incr_def classMembers_insert)
qed

lemma classification_tally:
  fixes maxLevel :: uint
  assumes "\<forall>i. 1 \<le> i \<and> i \<le> N \<longrightarrow> 0 \<le> response i \<and> response i < real (unat maxLevel) + 1"
  shows "forEach (classificationStep m response maxLevel) [1..<Suc N] ((\<lambda>_. 0), (\<lambda>_. 0), 0, 0) =
     Inr ((\<lambda>p. of_nat (card (classMembers (leftMembers m N) response p))),
          (\<lambda>p. of_nat (card (classMembers (rightMembers m N) response p))),
          of_nat (card (leftMembers m N)), of_nat (card (rightMembers m N)))"
  using assms
proof (induction N)
  case 0
  then show ?case by simp
next
  case (Suc N)
  have IH: "forEach (classificationStep m response maxLevel) [1..<Suc N] ((\<lambda>_. 0), (\<lambda>_. 0), 0, 0) =
     Inr ((\<lambda>p. of_nat (card (classMembers (leftMembers m N) response p))),
          (\<lambda>p. of_nat (card (classMembers (rightMembers m N) response p))),
          of_nat (card (leftMembers m N)), of_nat (card (rightMembers m N)))"
    using Suc by simp
  have "0 \<le> response (Suc N)" "response (Suc N) < real (unat maxLevel) + 1"
    using Suc.prems by simp_all
  from toUInt_class [OF this refl] obtain c where
    c: "toUInt (response (Suc N)) = Inr c" "unat c = classOf (response (Suc N))" "\<not> maxLevel < c"
    by blast
  have split: "[1..<Suc (Suc N)] = [1..<Suc N] @ [Suc N]" by simp
  show ?case
  proof (cases "m (Suc N) = LEFT")
    case True
    then show ?thesis
      unfolding split forEach_append IH
      using c tally_insert [of "leftMembers m N" "Suc N" response]
      by (simp add: classificationStep_def leftMembers_Suc rightMembers_Suc)
  next
    case False
    then show ?thesis
      unfolding split forEach_append IH
      using c tally_insert [of "rightMembers m N" "Suc N" response]
      by (simp add: classificationStep_def leftMembers_Suc rightMembers_Suc)
  qed
qed

lemma card_leftMembers_le: "card (leftMembers m N) \<le> N"
  using card_members [of m N] by simp

lemma card_rightMembers_le: "card (rightMembers m N) \<le> N"
  using card_members [of m N] by simp

lemma dbl_card_class:
  fixes n :: uint
  assumes "finite D" "card D \<le> unat n"
  shows "dbl (of_nat (card (classMembers D response p))) = real (card (classMembers D response p))"
proof -
  have "card (classMembers D response p) \<le> card D"
    by (rule card_mono [OF assms(1) classMembers_subset])
  with assms(2) have "card (classMembers D response p) \<le> unat n" by simp
  then show ?thesis by (simp add: dbl_def unat_of_card [of _ n])
qed


lemma sumSquares_0 [simp]: "sumSquares c 0 = 0"
  by (simp add: sumSquares_def)

lemma sumSquares_Suc:
  "sumSquares c (Suc M) = nearest (sumSquares c M + fsquare (dbl (c (Suc M))))"
  by (simp add: sumSquares_def)

lemma fsquare_0 [simp]: "fsquare 0 = 0"
  by (simp add: fsquare_def)

lemma square_exact_range:
  assumes "c \<le> (94906265::nat)"
  shows "c ^ 2 < 2 ^ 53"
proof -
  have "c ^ 2 \<le> 94906265 ^ 2" using assms by (rule power_mono) simp
  also have "\<dots> < (2::nat) ^ 53" by simp
  finally show ?thesis .
qed

lemma even_square_double: "nearest 9007199326062756 = 9007199326062756"
  by code_simp

lemma square_double:
  assumes "c \<le> (94906266::nat)"
  shows "fsquare (real c) = (real c) ^ 2"
proof (cases "c \<le> 94906265")
  case True
  have "nearest (real (c ^ 2)) = real (c ^ 2)"
    by (rule nearest_nat [OF square_exact_range [OF True]])
  then show ?thesis by (simp add: fsquare_def)
next
  case False
  with assms have "c = 94906266" by simp
  then show ?thesis by (simp add: fsquare_def even_square_double)
qed

lemma sumSquares_spike:
  assumes "\<And>p. dbl (c p) = (if p = q then x else 0)" and "fsquare x = x ^ 2" and "1 \<le> q"
  shows "sumSquares c M = (if q \<le> M then x ^ 2 else 0)"
proof (induction M)
  case 0
  then show ?case using assms(3) by simp
next
  case (Suc M)
  have idem: "nearest (x ^ 2) = x ^ 2"
    using assms(2) by (simp add: fsquare_def)
  show ?case
  proof (cases "q = Suc M")
    case True
    then show ?thesis
      unfolding sumSquares_Suc Suc.IH by (simp add: assms(1,2) idem)
  next
    case False
    then show ?thesis
      unfolding sumSquares_Suc Suc.IH by (auto simp: assms(1) idem)
  qed
qed

lemma sumSquares_le:
  assumes "\<And>p. dbl (c p) = real (g p)" and "(\<Sum>p = 1..M. g p) \<le> 94906266"
  shows "0 \<le> sumSquares c M \<and> sumSquares c M \<le> (real (\<Sum>p = 1..M. g p)) ^ 2"
  using assms(2)
proof (induction M)
  case 0
  show ?case by simp
next
  case (Suc M)
  define T where "T = (\<Sum>p = 1..M. g p)"
  have split: "(\<Sum>p = 1..Suc M. g p) = T + g (Suc M)" by (simp add: T_def)
  have T: "T \<le> 94906266" and g: "g (Suc M) \<le> 94906266" and Tg: "T + g (Suc M) \<le> 94906266"
    using Suc.prems unfolding split by simp_all
  from Suc.IH T have IH: "0 \<le> sumSquares c M" "sumSquares c M \<le> (real T) ^ 2"
    unfolding T_def by simp_all
  have sq: "fsquare (dbl (c (Suc M))) = (real (g (Suc M))) ^ 2"
    unfolding assms(1) by (rule square_double [OF g])
  have nn: "0 \<le> sumSquares c M + (real (g (Suc M))) ^ 2" using IH(1) by simp
  have "sumSquares c M + (real (g (Suc M))) ^ 2 \<le> (real T) ^ 2 + (real (g (Suc M))) ^ 2"
    using IH(2) by simp
  also have "\<dots> \<le> (real T + real (g (Suc M))) ^ 2"
    by (simp add: power2_sum)
  also have "\<dots> = (real (T + g (Suc M))) ^ 2" by simp
  finally have le: "sumSquares c M + (real (g (Suc M))) ^ 2 \<le> (real (T + g (Suc M))) ^ 2" .
  have "nearest (sumSquares c M + (real (g (Suc M))) ^ 2) \<le> nearest ((real (T + g (Suc M))) ^ 2)"
    using nn le by (rule nearest_mono)
  also have "\<dots> = (real (T + g (Suc M))) ^ 2"
    using square_double [OF Tg] by (simp only: fsquare_def)
  finally have "sumSquares c (Suc M) \<le> (real (T + g (Suc M))) ^ 2"
    unfolding sumSquares_Suc sq .
  moreover have "0 \<le> sumSquares c (Suc M)"
    unfolding sumSquares_Suc sq using nn by (rule nearest_nonneg)
  ultimately show ?case unfolding split by simp
qed


lemma sumSquares_exact:
  assumes "\<And>p. dbl (c p) = real (g p)" and "(\<Sum>p = 1..M. (g p) ^ 2) < 2 ^ 53"
  shows "sumSquares c M = real (\<Sum>p = 1..M. (g p) ^ 2)"
  using assms(2)
proof (induction M)
  case 0
  show ?case by simp
next
  case (Suc M)
  have split: "(\<Sum>p = 1..Suc M. (g p) ^ 2) = (\<Sum>p = 1..M. (g p) ^ 2) + (g (Suc M)) ^ 2"
    by simp
  have a: "(\<Sum>p = 1..M. (g p) ^ 2) < 2 ^ 53" and b: "(g (Suc M)) ^ 2 < 2 ^ 53"
    using Suc.prems unfolding split by simp_all
  have "fsquare (dbl (c (Suc M))) = nearest (real ((g (Suc M)) ^ 2))"
    by (simp add: fsquare_def assms(1))
  also have "\<dots> = real ((g (Suc M)) ^ 2)" by (rule nearest_nat [OF b])
  finally have sq: "fsquare (dbl (c (Suc M))) = real ((g (Suc M)) ^ 2)" .
  have "sumSquares c (Suc M) = nearest (real (\<Sum>p = 1..Suc M. (g p) ^ 2))"
    unfolding sumSquares_Suc Suc.IH [OF a] sq split by simp
  also have "\<dots> = real (\<Sum>p = 1..Suc M. (g p) ^ 2)" by (rule nearest_nat [OF Suc.prems])
  finally show ?case .
qed

lemma squaredCounts_le:
  assumes "finite D"
  shows "squaredCounts D response M \<le> (card D) ^ 2"
proof -
  let ?c = "\<lambda>p. real (card (classMembers D response p))"
  have "real (squaredCounts D response M) = (\<Sum>p = 1..M. (?c p) ^ 2)"
    by (simp add: squaredCounts_def)
  also have "\<dots> \<le> (\<Sum>p = 1..M. ?c p) ^ 2"
    by (rule sum_squares_le_square_sum) simp_all
  also have "\<dots> \<le> (real (card D)) ^ 2"
  proof -
    have "(\<Sum>p = 1..M. ?c p) = real (\<Sum>p = 1..M. card (classMembers D response p))" by simp
    also have "\<dots> \<le> real (card D)"
      using sum_card_classMembers [OF assms, of response M] by (simp only: of_nat_le_iff)
    finally have "(\<Sum>p = 1..M. ?c p) \<le> real (card D)" .
    moreover have "0 \<le> (\<Sum>p = 1..M. ?c p)" by (rule sum_nonneg) simp
    ultimately show ?thesis by (rule power_mono)
  qed
  also have "\<dots> = real ((card D) ^ 2)" by simp
  finally show ?thesis by (simp only: of_nat_le_iff)
qed

lemma sumSquares_tally:
  fixes n :: uint
  assumes "finite D" "card D \<le> unat n" "unat n \<le> 94906265"
  shows "sumSquares (\<lambda>p. of_nat (card (classMembers D response p))) M
           = real (squaredCounts D response M)"
proof -
  have "squaredCounts D response M \<le> (card D) ^ 2" by (rule squaredCounts_le [OF assms(1)])
  also have "\<dots> < 2 ^ 53" using assms(2,3) by (intro square_exact_range) simp
  finally have "(\<Sum>p = 1..M. (card (classMembers D response p)) ^ 2) < 2 ^ 53"
    unfolding squaredCounts_def .
  then show ?thesis
    unfolding squaredCounts_def
    by (intro sumSquares_exact) (simp_all add: dbl_card_class [OF assms(1,2)])
qed

lemma unat_max: "unat (- 1 :: uint) = 4294967295"
  by (simp add: unsigned_minus_1_eq_mask mask_eq_exp_minus_1)

lemma classification_tallied:
  fixes n maxLevel :: uint
  assumes n: "n \<noteq> - 1" and M: "maxLevel \<noteq> - 1"
    and "\<forall>i. 1 \<le> i \<and> i \<le> unat n \<longrightarrow> 0 \<le> response i \<and> response i < real (unat maxLevel) + 1"
  shows "getCustomSplitStatisticMultivariateClassification n m response maxLevel =
     Inr (fadd
       (fdiv (sumSquares (\<lambda>p. of_nat (card (classMembers (leftMembers m (unat n)) response p)))
                (unat maxLevel))
             (real (card (leftMembers m (unat n)))))
       (fdiv (sumSquares (\<lambda>p. of_nat (card (classMembers (rightMembers m (unat n)) response p)))
                (unat maxLevel))
             (real (card (rightMembers m (unat n))))))"
  unfolding getCustomSplitStatisticMultivariateClassification_def
    classification_tally [OF assms(3)]
  using n M by (simp add: Let_def dbl_card_left dbl_card_right del: upt_Suc)

lemma classification_closed_form:
  fixes n maxLevel :: uint
  assumes n: "unat n \<le> 94906265" and M: "maxLevel \<noteq> - 1"
    and "leftMembers m (unat n) \<noteq> {}" "rightMembers m (unat n) \<noteq> {}"
    and "\<forall>i. 1 \<le> i \<and> i \<le> unat n \<longrightarrow> 0 \<le> response i \<and> response i < real (unat maxLevel) + 1"
  shows "getCustomSplitStatisticMultivariateClassification n m response maxLevel =
     Inr (Some (nearest
       (nearest (real (squaredCounts (leftMembers m (unat n)) response (unat maxLevel))
                   / real (card (leftMembers m (unat n))))
        + nearest (real (squaredCounts (rightMembers m (unat n)) response (unat maxLevel))
                   / real (card (rightMembers m (unat n)))))))"
proof -
  have l: "real (card (leftMembers m (unat n))) \<noteq> 0"
    and r: "real (card (rightMembers m (unat n))) \<noteq> 0"
    using assms(3,4) by simp_all
  have n1: "n \<noteq> - 1"
  proof
    assume "n = - 1"
    then have "unat n = 4294967295" by (simp add: unat_max)
    with n show False by simp
  qed
  show ?thesis
    unfolding classification_tallied [OF n1 M assms(5)]
      sumSquares_tally [OF finite_leftMembers card_leftMembers_le n]
      sumSquares_tally [OF finite_rightMembers card_rightMembers_le n]
    using l r by (simp add: fdiv_def fadd_def ddiv_def dadd_def)
qed

lemma classOf_1 [simp]: "classOf 1 = 1"
  by (simp add: classOf_def trunc_def)

lemma classOf_2 [simp]: "classOf 2 = 2"
  by (simp add: classOf_def trunc_def)

lemma fadd_Some: "fadd (Some x) (Some y) = Some (nearest (x + y))"
  by (simp add: fadd_def dadd_def)

lemma tally_quotient:
  fixes n :: uint
  assumes "finite D" "D \<noteq> {}" "card D \<le> unat n" "card D \<le> 94906266"
  shows "fdiv (sumSquares (\<lambda>p. of_nat (card (classMembers D response p))) M) (real (card D))
           = Some (nearest (sumSquares (\<lambda>p. of_nat (card (classMembers D response p))) M
                            / real (card D)))"
    and "nearest (sumSquares (\<lambda>p. of_nat (card (classMembers D response p))) M / real (card D))
           \<le> real (card D)"
    and "0 \<le> nearest (sumSquares (\<lambda>p. of_nat (card (classMembers D response p))) M
                     / real (card D))"
proof -
  let ?S = "sumSquares (\<lambda>p. of_nat (card (classMembers D response p))) M"
  define T where "T = (\<Sum>p = 1..M. card (classMembers D response p))"
  have pos: "0 < real (card D)" using assms(1,2) by (simp add: card_gt_0_iff)
  then show "fdiv ?S (real (card D)) = Some (nearest (?S / real (card D)))"
    by (simp add: fdiv_def ddiv_def)
  have T: "T \<le> card D" unfolding T_def by (rule sum_card_classMembers [OF assms(1)])
  with assms(4) have "T \<le> 94906266" by simp
  then have "0 \<le> ?S \<and> ?S \<le> (real T) ^ 2"
    unfolding T_def by (intro sumSquares_le) (simp_all add: dbl_card_class [OF assms(1,3)])
  then have S: "0 \<le> ?S" "?S \<le> (real T) ^ 2" by simp_all
  have "real T \<le> real (card D)" using T by (simp only: of_nat_le_iff)
  then have "(real T) ^ 2 \<le> (real (card D)) ^ 2" by (intro power_mono) simp_all
  with S(2) have "?S \<le> real (card D) * real (card D)" by (simp add: power2_eq_square)
  with pos have q: "?S / real (card D) \<le> real (card D)" by (simp add: divide_le_eq)
  have nn: "0 \<le> ?S / real (card D)" using S(1) by simp
  have "card D < 2 ^ 53" using assms(4) by simp
  then have "nearest (real (card D)) = real (card D)" by (rule nearest_nat)
  with nearest_mono [OF nn q]
  show "nearest (?S / real (card D)) \<le> real (card D)" by simp
  from nn show "0 \<le> nearest (?S / real (card D))" by (rule nearest_nonneg)
qed

lemma tally_pure:
  fixes n :: uint
  assumes "finite D" "D \<noteq> {}" "card D \<le> unat n" "card D \<le> 94906266" "1 \<le> q" "q \<le> M"
    and pure: "\<forall>i\<in>D. classOf (response i) = q"
  shows "fdiv (sumSquares (\<lambda>p. of_nat (card (classMembers D response p))) M) (real (card D))
           = Some (real (card D))"
proof -
  have pos: "real (card D) \<noteq> 0" using assms(1,2) by simp
  have cm: "classMembers D response p = (if p = q then D else {})" for p
    using pure by (auto simp: classMembers_def)
  have d: "dbl (of_nat (card (classMembers D response p)) :: uint)
      = (if p = q then real (card D) else 0)" for p
    unfolding dbl_card_class [OF assms(1,3)] by (simp add: cm)
  have "sumSquares (\<lambda>p. of_nat (card (classMembers D response p))) M = (real (card D)) ^ 2"
    using sumSquares_spike [where c = "\<lambda>p. of_nat (card (classMembers D response p))"
        and q = q and x = "real (card D)" and M = M, OF d square_double [OF assms(4)] assms(5)]
      assms(6)
    by simp
  moreover have "card D < 2 ^ 53" using assms(4) by simp
  then have "nearest (real (card D)) = real (card D)" by (rule nearest_nat)
  ultimately show ?thesis using pos by (simp add: fdiv_def ddiv_def power2_eq_square)
qed


lemma all_1_to_4: "(\<forall>i::nat. 1 \<le> i \<and> i \<le> 4 \<longrightarrow> P i) = (P 1 \<and> P 2 \<and> P 3 \<and> P 4)"
proof -
  have "(1 \<le> i \<and> i \<le> 4) = (i = 1 \<or> i = 2 \<or> i = 3 \<or> i = 4)" for i :: nat by auto
  then show ?thesis by auto
qed


lemma large_left:
  "leftMembers (\<lambda>i. if i \<le> 94906267 then LEFT else RIGHT) 94906268 = {1..94906267}"
  by (auto simp: leftMembers_def)

lemma large_right:
  "rightMembers (\<lambda>i. if i \<le> 94906267 then LEFT else RIGHT) 94906268 = {94906268}"
  by (auto simp: rightMembers_def)

lemma large_left_tally:
  "(\<lambda>p. of_nat (card (classMembers {1..94906267} (\<lambda>i. if i \<le> 94906267 then 1 else 2) p)) :: uint)
     = (\<lambda>p. if p = 1 then 94906267 else 0)"
proof
  fix p
  have "classMembers {1..94906267} (\<lambda>i. if i \<le> 94906267 then 1 else 2) p
      = (if p = 1 then {1..94906267} else {})"
    by (auto simp: classMembers_def)
  then show "(of_nat (card (classMembers {1..94906267} (\<lambda>i. if i \<le> 94906267 then 1 else 2) p)) :: uint)
      = (if p = 1 then 94906267 else 0)"
    by simp
qed

lemma large_right_tally:
  "(\<lambda>p. of_nat (card (classMembers {94906268} (\<lambda>i. if i \<le> 94906267 then 1 else 2) p)) :: uint)
     = (\<lambda>p. if p = 2 then 1 else 0)"
proof
  fix p
  have "classMembers {94906268} (\<lambda>i. if i \<le> 94906267 then 1 else 2) p
      = (if p = 2 then {94906268} else {})"
    by (auto simp: classMembers_def)
  then show "(of_nat (card (classMembers {94906268} (\<lambda>i. if i \<le> 94906267 then 1 else 2) p)) :: uint)
      = (if p = 2 then 1 else 0)"
    by simp
qed

lemma large_square: "nearest 9007199515875289 = 9007199515875288"
  by code_simp

lemma sumSquares_2:
  "sumSquares c 2 = nearest (nearest (fsquare (dbl (c 1))) + fsquare (dbl (c 2)))"
proof -
  have "sumSquares c (Suc (Suc 0))
      = nearest (nearest (fsquare (dbl (c (Suc 0)))) + fsquare (dbl (c (Suc (Suc 0)))))"
    by (simp add: sumSquares_Suc)
  moreover have "Suc (Suc 0) = 2" by simp
  ultimately show ?thesis by simp
qed

lemma large_rounded: "nearest 9007199515875288 = 9007199515875288"
  by code_simp

lemma large_left_sum: "sumSquares (\<lambda>p. if p = 1 then 94906267 else 0) 2 = 9007199515875288"
  unfolding sumSquares_2 by (simp add: dbl_def large_square large_rounded fsquare_def)

lemma large_right_sum: "sumSquares (\<lambda>p. if p = 2 then 1 else 0) 2 = 1"
  unfolding sumSquares_2 by (simp add: dbl_def fsquare_def)

lemma large_quotient: "fdiv 9007199515875288 94906267 = Some (94906267 - 1 / 2 ^ 26)"
  by code_simp

lemma large_value:
  "fadd (fdiv 9007199515875288 94906267) (fdiv 1 1) = Some (94906268 - 1 / 2 ^ 26)"
  by code_simp

lemma large_other_neighbour:
  "fdiv 9007199515875290 94906267 = Some (94906267 + 1 / 2 ^ 26)"
  by code_simp


section \<open>The canonical-correlation statistic\<close>

lemma countDaughters_card:
  "countDaughters m N = (int (card (leftMembers m N)), int (card (rightMembers m N)))"
proof (induction N)
  case 0
  then show ?case by (simp add: countDaughters_def)
next
  case (Suc N)
  have "[1..<Suc (Suc N)] = [1..<Suc N] @ [Suc N]" by simp
  then have "countDaughters m (Suc N) =
      (\<lambda>(leftSize, rghtSize). if m (Suc N) = LEFT then (leftSize + 1, rghtSize)
         else (leftSize, rghtSize + 1)) (countDaughters m N)"
    unfolding countDaughters_def by (simp del: upt_Suc)
  then show ?case
    using Suc by (simp add: leftMembers_Suc rightMembers_Suc)
qed

lemma assignBlocks_filter:
  "assignBlocks m feature N dimX dimY =
     (map (\<lambda>i. map (\<lambda>col. feature col i) [1..<Suc dimX]) (filter (\<lambda>i. m i = LEFT) [1..<Suc N]),
      map (\<lambda>i. map (\<lambda>col. feature col i) [dimX + 1..<Suc (dimX + dimY)]) (filter (\<lambda>i. m i = LEFT) [1..<Suc N]),
      map (\<lambda>i. map (\<lambda>col. feature col i) [1..<Suc dimX]) (filter (\<lambda>i. m i \<noteq> LEFT) [1..<Suc N]),
      map (\<lambda>i. map (\<lambda>col. feature col i) [dimX + 1..<Suc (dimX + dimY)]) (filter (\<lambda>i. m i \<noteq> LEFT) [1..<Suc N]))"
proof (induction N)
  case 0
  then show ?case by (simp add: assignBlocks_def)
next
  case (Suc N)
  have split: "[1..<Suc (Suc N)] = [1..<Suc N] @ [Suc N]" by simp
  have "assignBlocks m feature (Suc N) dimX dimY =
      (\<lambda>(leftX, leftY, rightX, rightY).
             if m (Suc N) = LEFT
             then (leftX @ [map (\<lambda>col. feature col (Suc N)) [1..<Suc dimX]],
                   leftY @ [map (\<lambda>col. feature col (Suc N)) [dimX + 1..<Suc (dimX + dimY)]],
                   rightX, rightY)
             else (leftX, leftY,
                   rightX @ [map (\<lambda>col. feature col (Suc N)) [1..<Suc dimX]],
                   rightY @ [map (\<lambda>col. feature col (Suc N)) [dimX + 1..<Suc (dimX + dimY)]]))
        (assignBlocks m feature N dimX dimY)"
    unfolding assignBlocks_def split by simp
  then show ?case
    unfolding Suc split by simp
qed

lemma dimY_exact:
  fixes featureCount :: uint
  assumes "0 < dimX" "dimX < 2 ^ 31"
    and "0 < sint (featureCount - word_of_int dimX - 1)"
  shows "sint (featureCount - word_of_int dimX - 1) = int (unat featureCount) - dimX - 1"
proof -
  define u where "u = int (unat featureCount)"
  define z where "z = u - dimX - 1"
  have u: "0 \<le> u" "u < 2 ^ 32"
    using uint_lt2p [of featureCount] by (simp_all add: u_def)
  have w: "featureCount - word_of_int dimX - 1 = (word_of_int z :: uint)"
    by (simp add: z_def u_def)
  have s: "sint (word_of_int z :: uint) = (z + 2 ^ 31) mod 2 ^ 32 - 2 ^ 31"
    by (simp add: int_word_sint)
  have lo: "- (2 ^ 31) \<le> z" and hi: "z < 2 ^ 32"
    using assms(1,2) u by (simp_all add: z_def)
  show ?thesis
  proof (cases "z < 2 ^ 31")
    case True
    then have "(z + 2 ^ 31) mod 2 ^ 32 = z + 2 ^ 31"
      using lo by (intro mod_pos_pos_trivial) simp_all
    then show ?thesis unfolding w s u_def [symmetric] by (simp add: z_def)
  next
    case False
    then have "(z + 2 ^ 31 - 2 ^ 32) mod 2 ^ 32 = z + 2 ^ 31 - 2 ^ 32"
      using hi by (intro mod_pos_pos_trivial) simp_all
    moreover have "(z + 2 ^ 31 - 2 ^ 32) mod 2 ^ 32 = (z + 2 ^ 31) mod (2 ^ 32 :: int)"
      by (rule minus_mod_self2)
    ultimately have "sint (word_of_int z :: uint) = z - 2 ^ 32"
      unfolding s by simp
    with assms(3) hi show ?thesis unfolding w by simp
  qed
qed


lemma sint_in_range:
  assumes "- (2 ^ 31) \<le> z" "z < 2 ^ 31"
  shows "sint (word_of_int z :: uint) = z"
proof -
  have "(z + 2 ^ 31) mod 2 ^ 32 = z + 2 ^ 31"
    using assms by (intro mod_pos_pos_trivial) simp_all
  then show ?thesis by (simp add: int_word_sint)
qed

lemma toInt_range:
  assumes "toInt x = Inr d"
  shows "d = trunc x" and "- (2 ^ 31) \<le> d" and "d < 2 ^ 31"
proof -
  from assms have x: "- (2 ^ 31) - 1 < x" "x < 2 ^ 31" and d: "d = trunc x"
    by (auto simp: toInt_def split: if_splits)
  show "d = trunc x" by (rule d)
  show "- (2 ^ 31) \<le> d"
  proof (cases "x < 0")
    case True
    have "- (2 ^ 31) - 1 < \<lceil>x\<rceil>" using x(1) by (simp add: less_ceiling_iff)
    then show ?thesis using True by (simp add: d trunc_def)
  next
    case False
    then have "0 \<le> \<lfloor>x\<rfloor>" by simp
    then show ?thesis using False by (simp add: d trunc_def)
  qed
  show "d < 2 ^ 31"
  proof (cases "x < 0")
    case True
    then have "\<lceil>x\<rceil> \<le> 0" by (simp add: ceiling_le_iff)
    then show ?thesis using True by (simp add: d trunc_def)
  next
    case False
    have "\<lfloor>x\<rfloor> < 2 ^ 31" using x(2) by (simp add: floor_less_iff)
    then show ?thesis using False by (simp add: d trunc_def)
  qed
qed

lemma cca_unfold:
  fixes n featureCount :: uint
  assumes "featureCount \<noteq> 0" "n \<noteq> 0" "unat n < 2 ^ 31 - 1"
    and "toInt (feature (unat featureCount) 1) = Inr dimX"
    and "0 < dimX" "0 < dimY" "dimX + dimY \<le> INT_MAX"
    and "sint (featureCount - word_of_int dimX - 1) = dimY"
  shows "ccaSplitAbsoluteDifference canCor n membership feature featureCount =
    (if int (card (leftMembers membership (unat n))) > dimX + dimY
        \<and> int (card (rightMembers membership (unat n))) > dimX + dimY then
       (let (leftX, leftY, rightX, rightY) =
              assignBlocks membership feature (unat n) (nat dimX) (nat dimY);
            ccaCorLeft = canCor leftX leftY;
            ccaCorRight = canCor rightX rightY
        in if int (card (leftMembers membership (unat n)))
                * int (card (rightMembers membership (unat n))) > INT_MAX
           then Inl SignedOverflow
           else Inr \<lparr> ccaCor =
                        dmul (Some (sqrt (real_of_int (int (card (leftMembers membership (unat n)))
                                 * int (card (rightMembers membership (unat n)))))))
                          (dfabs (dsub ccaCorLeft ccaCorRight)),
                      lapackInputs = [(leftX, leftY), (rightX, rightY)] \<rparr>)
     else Inr \<lparr> ccaCor = Some 0, lapackInputs = [] \<rparr>)"
proof -
  have "unat n < 2147483647" using assms(3) by simp
  then have "int (unat n) < 2147483647" by linarith
  then have n: "\<not> INT_MAX \<le> int (unat n)"
    unfolding INT_MAX_def by simp
  show ?thesis
    unfolding ccaSplitAbsoluteDifference_def
    using assms(1,2,4-8) n
    by (simp add: Let_def countDaughters_card)
qed

text \<open>
  Claim C8. \<^verbatim>\<open>ccaSplitAbsoluteDifference\<close> reads \<open>dimX\<close> from \<^verbatim>\<open>feature[featureCount][1]\<close> and
  sets \<open>dimY = featureCount - dimX - 1\<close>. When \<open>dimX \<le> 0\<close>, or \<open>dimY \<le> 0\<close>, or a daughter has at
  most \<open>dimX + dimY\<close> observations, it returns exactly 0 and hands nothing to LAPACK. The
  feature matrix is there (\<open>featureCount\<close> and \<open>n\<close> are not 0), the value read fits an
  \<^verbatim>\<open>int\<close>, and the sizes are below \<open>2\<^sup>3\<^sup>1\<close>, the range of the \<^verbatim>\<open>int\<close> counters.
\<close>

theorem cca_guard:
  fixes n featureCount :: uint
  assumes fc: "featureCount \<noteq> 0" "unat featureCount \<le> 2 ^ 31"
    and n: "n \<noteq> 0" "unat n < 2 ^ 31 - 1"
    and conv: "toInt (feature (unat featureCount) 1) = Inr dimX"
    and dimY: "dimY = int (unat featureCount) - dimX - 1"
    and guard: "dimX \<le> 0 \<or> dimY \<le> 0
        \<or> int (card (leftMembers membership (unat n))) \<le> dimX + dimY
        \<or> int (card (rightMembers membership (unat n))) \<le> dimX + dimY"
  shows "ccaSplitAbsoluteDifference canCor n membership feature featureCount =
           Inr \<lparr> ccaCor = Some 0, lapackInputs = [] \<rparr>"
proof (cases "0 < dimX \<and> 0 < sint (featureCount - word_of_int dimX - 1)")
  case False
  then show ?thesis
    unfolding ccaSplitAbsoluteDifference_def using fc(1) n(1) conv
    by (auto simp: Let_def)
next
  case True
  then have dX: "0 < dimX" and dY': "0 < sint (featureCount - word_of_int dimX - 1)" by simp_all
  have eq: "sint (featureCount - word_of_int dimX - 1) = dimY"
    unfolding dimY by (rule dimY_exact [OF dX toInt_range(3) [OF conv] dY'])
  have dY: "0 < dimY" using dY' eq by simp
  have "unat featureCount \<le> 2147483648" using fc(2) by simp
  then have "int (unat featureCount) \<le> 2147483648" by linarith
  then have sum: "dimX + dimY \<le> INT_MAX" unfolding dimY INT_MAX_def by simp
  show ?thesis
    unfolding cca_unfold [where feature = feature, OF fc(1) n conv dX dY sum eq]
    using guard dX dY by auto
qed


theorem cca_guard_witness:
  "ccaSplitAbsoluteDifference (\<lambda>X Y. Some 1) 4 (arr [LEFT, RIGHT, LEFT, RIGHT])
     (\<lambda>col i. arr [1 / 2, 1 / 4, 1] col) 3 = Inr \<lparr> ccaCor = Some 0, lapackInputs = [] \<rparr>"
proof -
  have fc: "(3::uint) \<noteq> 0" "unat (3::uint) \<le> 2 ^ 31"
    and n: "(4::uint) \<noteq> 0" "unat (4::uint) < 2 ^ 31 - 1" by simp_all
  have conv: "toInt ((\<lambda>col i. arr [1 / 2, 1 / 4, 1::real] col) (unat (3::uint)) 1) = Inr 1"
    by (simp add: toInt_def trunc_def arr_def)
  have dimY: "(1::int) = int (unat (3::uint)) - 1 - 1" by simp
  have "card (leftMembers (arr [LEFT, RIGHT, LEFT, RIGHT]) 4) = 2"
    by (simp add: eval_nat_numeral leftMembers_Suc arr_def)
  then have guard: "(1::int) \<le> 0 \<or> (1::int) \<le> 0
      \<or> int (card (leftMembers (arr [LEFT, RIGHT, LEFT, RIGHT]) (unat (4::uint)))) \<le> 1 + 1
      \<or> int (card (rightMembers (arr [LEFT, RIGHT, LEFT, RIGHT]) (unat (4::uint)))) \<le> 1 + 1"
    by simp
  show ?thesis
    by (rule cca_guard [where feature = "\<lambda>col i. arr [1 / 2, 1 / 4, 1] col", OF fc n conv dimY guard])
qed

text \<open>
  Claim C9. In \<^verbatim>\<open>ccaSplitAbsoluteDifference\<close> the block size \<open>dimX\<close> is the value of the
  last feature, \<^verbatim>\<open>feature[featureCount][1]\<close>, truncated to an \<^verbatim>\<open>int\<close>, and \<open>dimY\<close> is
  \<open>featureCount - dimX - 1\<close>. On the path that reaches LAPACK, each daughter's X block holds
  the features \<open>1..dimX\<close> and its Y block the features \<open>dimX+1..dimX+dimY\<close> of the daughter's
  observations, in the order of the observations (the loop variable \<^verbatim>\<open>col\<close> of the source
  runs over the features).
\<close>

theorem cca_blocks:
  fixes n featureCount :: uint
  assumes fc: "featureCount \<noteq> 0" "unat featureCount \<le> 2 ^ 31"
    and n: "n \<noteq> 0" "unat n < 2 ^ 31 - 1"
    and conv: "toInt (feature (unat featureCount) 1) = Inr dimX"
    and dimY: "dimY = int (unat featureCount) - dimX - 1"
    and pos: "0 < dimX" "0 < dimY"
    and sizes: "dimX + dimY < int (card (leftMembers membership (unat n)))"
      "dimX + dimY < int (card (rightMembers membership (unat n)))"
    and prod: "int (card (leftMembers membership (unat n)))
                 * int (card (rightMembers membership (unat n))) \<le> INT_MAX"
  shows "dimX = trunc (feature (unat featureCount) 1)
     \<and> (\<exists>r. ccaSplitAbsoluteDifference canCor n membership feature featureCount = Inr r
          \<and> lapackInputs r =
            [(map (\<lambda>i. map (\<lambda>col. feature col i) [1..<Suc (nat dimX)])
                (filter (\<lambda>i. membership i = LEFT) [1..<Suc (unat n)]),
              map (\<lambda>i. map (\<lambda>col. feature col i) [nat dimX + 1..<Suc (nat dimX + nat dimY)])
                (filter (\<lambda>i. membership i = LEFT) [1..<Suc (unat n)])),
             (map (\<lambda>i. map (\<lambda>col. feature col i) [1..<Suc (nat dimX)])
                (filter (\<lambda>i. membership i \<noteq> LEFT) [1..<Suc (unat n)]),
              map (\<lambda>i. map (\<lambda>col. feature col i) [nat dimX + 1..<Suc (nat dimX + nat dimY)])
                (filter (\<lambda>i. membership i \<noteq> LEFT) [1..<Suc (unat n)]))])"
proof -
  have "unat featureCount \<le> 2147483648" using fc(2) by simp
  then have u: "int (unat featureCount) \<le> 2147483648" by linarith
  then have sum: "dimX + dimY \<le> INT_MAX" unfolding dimY INT_MAX_def by simp
  have "- (2 ^ 31) \<le> dimY" "dimY < 2 ^ 31"
    using pos u unfolding dimY by simp_all
  then have "sint (word_of_int dimY :: uint) = dimY" by (rule sint_in_range)
  moreover have "featureCount - word_of_int dimX - 1 = (word_of_int dimY :: uint)"
    unfolding dimY by simp
  ultimately have eq: "sint (featureCount - word_of_int dimX - 1) = dimY" by simp
  show ?thesis
    unfolding cca_unfold [where feature = feature, OF fc(1) n conv pos sum eq]
      assignBlocks_filter
    using sizes prod toInt_range(1) [OF conv]
    by (simp del: upt_Suc)
qed

theorem cca_blocks_witness:
  "\<exists>r. ccaSplitAbsoluteDifference (\<lambda>X Y. Some 1) 6 (arr [LEFT, RIGHT, LEFT, RIGHT, LEFT, RIGHT])
         (\<lambda>col i. arr [real i, 2 * real i, 1] col) 3 = Inr r
     \<and> lapackInputs r = [([[1], [3], [5]], [[2], [6], [10]]), ([[2], [4], [6]], [[4], [8], [12]])]"
proof -
  let ?m = "arr [LEFT, RIGHT, LEFT, RIGHT, LEFT, RIGHT]"
  let ?f = "\<lambda>col i. arr [real i, 2 * real i, 1] col"
  have fc: "(3::uint) \<noteq> 0" "unat (3::uint) \<le> 2 ^ 31"
    and n: "(6::uint) \<noteq> 0" "unat (6::uint) < 2 ^ 31 - 1" by simp_all
  have conv: "toInt (?f (unat (3::uint)) 1) = Inr 1"
    by (simp add: toInt_def trunc_def arr_def)
  have dimY: "(1::int) = int (unat (3::uint)) - 1 - 1" by simp
  have pos: "(0::int) < 1" "(0::int) < 1" by simp_all
  have l: "card (leftMembers ?m 6) = 3" and r: "card (rightMembers ?m 6) = 3"
    by (simp_all add: eval_nat_numeral leftMembers_Suc rightMembers_Suc arr_def)
  have sizes: "(1::int) + 1 < int (card (leftMembers ?m (unat (6::uint))))"
    "(1::int) + 1 < int (card (rightMembers ?m (unat (6::uint))))"
    using l r by simp_all
  have prod: "int (card (leftMembers ?m (unat (6::uint))))
      * int (card (rightMembers ?m (unat (6::uint)))) \<le> INT_MAX"
    using l r by (simp add: INT_MAX_def)
  have six: "[1..<Suc (unat (6::uint))] = [1, 2, 3, 4, 5, 6]"
    by (simp add: upt_conv_Cons)
  from cca_blocks [where feature = ?f and canCor = "\<lambda>X Y. Some 1", OF fc n conv dimY pos sizes prod]
  show ?thesis
    unfolding six by (simp add: arr_def)
qed

section \<open>The competing-risk tables\<close>

declare sweepCR.simps [simp del]

lemma sweepCR_stop: "i = 0 \<or> k = 0 \<Longrightarrow> sweepCR m tm ev R et i k t = Inr t"
  using sweepCR.simps [of m tm ev R et i k t] by auto

lemma sweepCR_visit:
  "0 < i \<Longrightarrow> 0 < k \<Longrightarrow> et k \<le> tm i \<Longrightarrow>
   sweepCR m tm ev R et i k t =
     (case visitCR m tm ev R et i k t of Inl f \<Rightarrow> Inl f
      | Inr t' \<Rightarrow> sweepCR m tm ev R et (i - 1) k t')"
  using sweepCR.simps [of m tm ev R et i k t] by simp

lemma sweepCR_skip:
  "0 < i \<Longrightarrow> 0 < k \<Longrightarrow> \<not> et k \<le> tm i \<Longrightarrow>
   sweepCR m tm ev R et i k t = sweepCR m tm ev R et i (k - 1) t"
  using sweepCR.simps [of m tm ev R et i k t] by simp

lemma sweepCR_rule:
  assumes "sweepCR m tm ev R et i k t = Inr tf" and "P i k t"
    and "\<And>i k t t'. 0 < i \<Longrightarrow> 0 < k \<Longrightarrow> et k \<le> tm i \<Longrightarrow> P i k t \<Longrightarrow>
           visitCR m tm ev R et i k t = Inr t' \<Longrightarrow> P (i - 1) k t'"
    and "\<And>i k t. 0 < i \<Longrightarrow> 0 < k \<Longrightarrow> \<not> et k \<le> tm i \<Longrightarrow> P i k t \<Longrightarrow> P i (k - 1) t"
    and "\<And>i k t. i = 0 \<or> k = 0 \<Longrightarrow> P i k t \<Longrightarrow> Q t"
  shows "Q tf"
  using assms
proof (induction m tm ev R et i k t rule: sweepCR.induct)
  case (1 m tm ev R et i k t)
  note run = "1.prems"(1) and inv = "1.prems"(2) and visit = "1.prems"(3)
    and skip = "1.prems"(4) and stop = "1.prems"(5)
  show ?case
  proof (cases "0 < i \<and> 0 < k")
    case False
    then have halt: "i = 0 \<or> k = 0" by auto
    have "tf = t" using run by (simp add: sweepCR_stop [OF halt])
    then show ?thesis using stop [OF halt inv] by simp
  next
    case pos: True
    then have i: "0 < i" and k: "0 < k" by simp_all
    show ?thesis
    proof (cases "et k \<le> tm i")
      case True
      from run i k True obtain t' where
        v: "visitCR m tm ev R et i k t = Inr t'"
        and rest: "sweepCR m tm ev R et (i - 1) k t' = Inr tf"
        by (auto simp: sweepCR_visit split: sum.splits)
      have "P (i - 1) k t'" by (rule visit [OF i k True inv v])
      from "1.IH"(1) [OF pos True v rest this visit skip stop] show ?thesis .
    next
      case False
      have rest: "sweepCR m tm ev R et i (k - 1) t = Inr tf"
        using run i k False by (simp add: sweepCR_skip)
      have "P i (k - 1) t" by (rule skip [OF i k False inv])
      from "1.IH"(2) [OF pos False rest this visit skip stop] show ?thesis .
    qed
  qed
qed

lemma visitCR_Inr:
  assumes "visitCR m tm ev R et i k t = Inr t'"
  shows "nodeParentAtRisk t' = incr (nodeParentAtRisk t) k"
    and "nodeLeftAtRisk t' = (if m i = LEFT then incr (nodeLeftAtRisk t) k else nodeLeftAtRisk t)"
    and "nodeParentEvent t' =
          (if et k = tm i \<and> 0 < ev i then incr (nodeParentEvent t) k else nodeParentEvent t)"
    and "nodeLeftEvent t' = nodeLeftEvent t"
    and "nodeParentInclusiveAtRisk t' = nodeParentInclusiveAtRisk t"
    and "nodeLeftInclusiveAtRisk t' = nodeLeftInclusiveAtRisk t"
    and "\<exists>c. (et k = tm i \<and> 0 < ev i \<longrightarrow> toUInt (ev i) = Inr c \<and> c \<noteq> 0 \<and> c \<le> R)
          \<and> nodeParentEventCR t' =
               (if et k = tm i \<and> 0 < ev i then incr2 (nodeParentEventCR t) (unat c) k
                else nodeParentEventCR t)
          \<and> nodeLeftEventCR t' =
               (if et k = tm i \<and> 0 < ev i \<and> m i = LEFT then incr2 (nodeLeftEventCR t) (unat c) k
                else nodeLeftEventCR t)"
  using assms
  by (auto simp: visitCR_def Let_def split: sum.splits if_splits)


lemma sweepCR_atRisk:
  assumes "sweepCR m tm ev R et N K resetTablesCR = Inr tf"
  shows "nodeParentAtRisk tf = nodeParentAtRisk (sweep m tm ev et N K resetTables)"
    and "nodeLeftAtRisk tf = nodeLeftAtRisk (sweep m tm ev et N K resetTables)"
    and "nodeParentEvent tf = nodeParentEvent (sweep m tm ev et N K resetTables)"
proof -
  define fin where "fin = sweep m tm ev et N K resetTables"
  define P where "P = (\<lambda>i k (t::crTables). \<exists>ts.
      nodeParentAtRisk t = nodeParentAtRisk ts \<and> nodeLeftAtRisk t = nodeLeftAtRisk ts
      \<and> nodeParentEvent t = nodeParentEvent ts \<and> sweep m tm ev et i k ts = fin)"
  define Q where "Q = (\<lambda>t::crTables.
      nodeParentAtRisk t = nodeParentAtRisk fin \<and> nodeLeftAtRisk t = nodeLeftAtRisk fin
      \<and> nodeParentEvent t = nodeParentEvent fin)"
  have init: "P N K resetTablesCR"
    unfolding P_def by (rule exI [of _ resetTables]) (simp add: resetTablesCR_def resetTables_def fin_def)
  have "Q tf"
  proof (rule sweepCR_rule [where P = P and Q = Q, OF assms init])
    fix i k t t'
    assume i: "0 < i" and k: "0 < k" and le: "et k \<le> tm i" and P: "P i k t"
      and v: "visitCR m tm ev R et i k t = Inr t'"
    from P obtain ts where ts: "nodeParentAtRisk t = nodeParentAtRisk ts"
      "nodeLeftAtRisk t = nodeLeftAtRisk ts" "nodeParentEvent t = nodeParentEvent ts"
      "sweep m tm ev et i k ts = fin" unfolding P_def by blast
    have "sweep m tm ev et (i - 1) k (visit m tm ev et i k ts) = fin"
      using ts(4) sweep_visit [of i k et tm m ev ts] i k le by simp
    then show "P (i - 1) k t'"
      unfolding P_def using ts(1-3) visitCR_Inr(1-3) [OF v]
      by (intro exI [of _ "visit m tm ev et i k ts"]) simp
  next
    fix i k t
    assume i: "0 < i" and k: "0 < k" and gt: "\<not> et k \<le> tm i" and P: "P i k t"
    then show "P i (k - 1) t"
      unfolding P_def using sweep_skip [of i k et tm m ev] by auto
  next
    fix i k t
    assume "i = 0 \<or> k = 0" and "P i k t"
    then show "Q t"
      unfolding P_def Q_def using sweep_stop by auto
  qed
  then show "nodeParentAtRisk tf = nodeParentAtRisk (sweep m tm ev et N K resetTables)"
    and "nodeLeftAtRisk tf = nodeLeftAtRisk (sweep m tm ev et N K resetTables)"
    and "nodeParentEvent tf = nodeParentEvent (sweep m tm ev et N K resetTables)"
    by (simp_all add: Q_def fin_def)
qed

lemma total_col_incr2:
  assumes "1 \<le> c" "c \<le> R"
  shows "total (\<lambda>r. incr2 M c k r s) R \<le> total (\<lambda>r. M r s) R + (if s = k then 1 else 0)"
proof (cases "s = k")
  case False
  then have "(\<lambda>r. incr2 M c k r s) = (\<lambda>r. M r s)"
    by (auto simp: incr2_def incr_def)
  then show ?thesis by simp
next
  case True
  have "(\<lambda>r. incr2 M c k r s) = (\<lambda>r. M r s)(c := M c s + 1)"
    using True by (auto simp: incr2_def incr_def)
  then have "total (\<lambda>r. incr2 M c k r s) R + unat (M c s) = total (\<lambda>r. M r s) R + unat (M c s + 1)"
    using total_upd [OF assms, of "\<lambda>r. M r s" "M c s + 1"] by simp
  then show ?thesis using unat_incr_le [of "M c s"] True by simp
qed

lemma sweepCR_events:
  fixes n R eventTimeSize :: uint
  assumes "sweepCR m tm ev R et (unat n) (unat eventTimeSize) resetTablesCR = Inr tf"
  shows "total (\<lambda>r. nodeParentEventCR tf r s) (unat R) \<le> unat (nodeParentAtRisk tf s)"
    and "unat (nodeLeftEventCR tf r s) \<le> unat (nodeParentEventCR tf r s)"
proof -
  define K where "K = unat eventTimeSize"
  define N where "N = unat n"
  have N: "N < 2 ^ 32" unfolding N_def by (rule unat_uint_less)
  define P where "P = (\<lambda>i k (t::crTables). k \<le> K \<and> total (nodeParentAtRisk t) K + i \<le> N
      \<and> (\<forall>s. total (\<lambda>r. nodeParentEventCR t r s) (unat R) \<le> unat (nodeParentAtRisk t s))
      \<and> (\<forall>r s. unat (nodeLeftEventCR t r s) \<le> unat (nodeParentEventCR t r s)))"
  define Q where "Q = (\<lambda>t::crTables.
      (\<forall>s. total (\<lambda>r. nodeParentEventCR t r s) (unat R) \<le> unat (nodeParentAtRisk t s))
      \<and> (\<forall>r s. unat (nodeLeftEventCR t r s) \<le> unat (nodeParentEventCR t r s)))"
  have init: "P N K resetTablesCR"
    by (simp add: P_def resetTablesCR_def total_def)
  have "Q tf"
  proof (rule sweepCR_rule [where P = P and Q = Q, OF assms [folded N_def K_def] init])
    fix i k t t'
    assume i: "0 < i" and k: "0 < k" and P: "P i k t"
      and v: "visitCR m tm ev R et i k t = Inr t'"
    from P have kK: "k \<le> K" and tot: "total (nodeParentAtRisk t) K + i \<le> N"
      and col: "\<And>s. total (\<lambda>r. nodeParentEventCR t r s) (unat R) \<le> unat (nodeParentAtRisk t s)"
      and le: "\<And>r s. unat (nodeLeftEventCR t r s) \<le> unat (nodeParentEventCR t r s)"
      by (simp_all add: P_def)
    have k1: "1 \<le> k" using k by simp
    have small: "total (nodeParentAtRisk t) K < 2 ^ 32 - 1" using tot N i by simp
    have tot': "total (incr (nodeParentAtRisk t) k) K = total (nodeParentAtRisk t) K + 1"
      by (rule total_incr [OF k1 kK small])
    have pk: "unat (nodeParentAtRisk t k) < 2 ^ 32 - 1"
      using unat_le_total [OF k1 kK, of "nodeParentAtRisk t"] small by simp
    then have pa: "unat (nodeParentAtRisk t k + 1) = unat (nodeParentAtRisk t k) + 1"
      by (rule unat_incr)
    have PA': "unat (nodeParentAtRisk t' s) = unat (nodeParentAtRisk t s) + (if s = k then 1 else 0)" for s
      using pa by (simp add: visitCR_Inr(1) [OF v] incr_def)
    define evt where "evt \<longleftrightarrow> et k = tm i \<and> 0 < ev i"
    from visitCR_Inr(7) [OF v] obtain c where
      c: "evt \<longrightarrow> toUInt (ev i) = Inr c \<and> c \<noteq> 0 \<and> c \<le> R"
      and pe: "nodeParentEventCR t' =
               (if evt then incr2 (nodeParentEventCR t) (unat c) k else nodeParentEventCR t)"
      and le': "nodeLeftEventCR t' =
               (if evt \<and> m i = LEFT then incr2 (nodeLeftEventCR t) (unat c) k
                else nodeLeftEventCR t)"
      unfolding evt_def conj_assoc by blast
    have col': "total (\<lambda>r. nodeParentEventCR t' r s) (unat R) \<le> unat (nodeParentAtRisk t' s)" for s
    proof (cases evt)
      case False
      then show ?thesis using col [of s] PA' [of s] pe by simp
    next
      case True
      with c have "c \<noteq> 0" "c \<le> R" by simp_all
      then have cr: "1 \<le> unat c" "unat c \<le> unat R"
        by (simp_all add: word_le_nat_alt unat_gt_0 Suc_le_eq)
      show ?thesis
        using total_col_incr2 [OF cr, of "nodeParentEventCR t" k s] col [of s] PA' [of s] pe True
        by simp
    qed
    have cell: "unat (nodeParentEventCR t r k) < 2 ^ 32 - 1" if "1 \<le> r" "r \<le> unat R" for r
      using unat_le_total [OF that, of "\<lambda>r. nodeParentEventCR t r k"] col [of k] pk by simp
    have le'': "unat (nodeLeftEventCR t' r s) \<le> unat (nodeParentEventCR t' r s)" for r s
    proof (cases evt)
      case False
      then show ?thesis using le [of r s] pe le' by simp
    next
      case True
      with c have "c \<noteq> 0" "c \<le> R" by simp_all
      then have cr: "1 \<le> unat c" "unat c \<le> unat R"
        by (simp_all add: word_le_nat_alt unat_gt_0 Suc_le_eq)
      have up: "unat (nodeParentEventCR t (unat c) k + 1) = unat (nodeParentEventCR t (unat c) k) + 1"
        by (rule unat_incr [OF cell [OF cr]])
      show ?thesis
        using le [of r s] le [of "unat c" k] up unat_incr_le [of "nodeLeftEventCR t (unat c) k"]
          pe le' True
        by (auto simp: incr2_def incr_def)
    qed
    show "P (i - 1) k t'"
      unfolding P_def using kK tot tot' i col' le'' visitCR_Inr(1) [OF v] by simp
  next
    fix i k t
    assume "0 < i" "0 < k" "P i k t"
    then show "P i (k - 1) t" by (auto simp: P_def)
  next
    fix i k t
    assume "P i k t"
    then show "Q t" by (simp add: P_def Q_def)
  qed
  then show "total (\<lambda>r. nodeParentEventCR tf r s) (unat R) \<le> unat (nodeParentAtRisk tf s)"
    and "unat (nodeLeftEventCR tf r s) \<le> unat (nodeParentEventCR tf r s)"
    by (simp_all add: Q_def)
qed


lemma fold_cond_plus:
  fixes f :: "nat \<Rightarrow> uint"
  shows "fold (\<lambda>r acc. if j \<noteq> r then acc + f r else acc) [1..<Suc R] z =
           z + (\<Sum>r = 1..R. if j \<noteq> r then f r else 0)"
proof (induction R)
  case 0
  then show ?case by simp
next
  case (Suc R)
  have split: "[1..<Suc (Suc R)] = [1..<Suc R] @ [Suc R]" by simp
  show ?case
    unfolding split fold_append comp_def Suc.IH by (simp add: ac_simps)
qed

lemma creditOthers_sum:
  "creditOthers e R j k start =
     start + (\<Sum>s = 1..<k. \<Sum>r = 1..R. if j \<noteq> r then e r s else 0)"
proof -
  have "fold (\<lambda>s acc. fold (\<lambda>r acc'. if j \<noteq> r then acc' + e r s else acc') [1..<Suc R] acc)
          [1..<k] z = z + (\<Sum>s = 1..<k. \<Sum>r = 1..R. if j \<noteq> r then e r s else 0)" for z
  proof (induction k)
    case 0
    then show ?case by simp
  next
    case (Suc k)
    show ?case
    proof (cases "k = 0")
      case True
      then show ?thesis by simp
    next
      case False
      then have split: "[1..<Suc k] = [1..<k] @ [k]" and set: "{1..<Suc k} = insert k {1..<k}"
        by auto
      show ?thesis
        unfolding split fold_append comp_def Suc.IH set
        by (simp add: fold_cond_plus [unfolded One_nat_def] ac_simps del: upt_Suc)
    qed
  qed
  then show ?thesis unfolding creditOthers_def .
qed

lemma inclusiveCell_frame [simp]:
  "nodeParentAtRisk (inclusiveCell R k j t) = nodeParentAtRisk t"
  "nodeLeftAtRisk (inclusiveCell R k j t) = nodeLeftAtRisk t"
  "nodeParentEvent (inclusiveCell R k j t) = nodeParentEvent t"
  "nodeLeftEvent (inclusiveCell R k j t) = nodeLeftEvent t"
  "nodeParentEventCR (inclusiveCell R k j t) = nodeParentEventCR t"
  "nodeLeftEventCR (inclusiveCell R k j t) = nodeLeftEventCR t"
  by (simp_all add: inclusiveCell_def)

lemma inclusiveCell_PInc:
  "nodeParentInclusiveAtRisk (inclusiveCell R k j t) j' k' =
     (if j' = j \<and> k' = k
      then creditOthers (nodeParentEventCR t) R j k (nodeParentAtRisk t k)
      else nodeParentInclusiveAtRisk t j' k')"
  by (simp add: inclusiveCell_def)

lemma inclusiveCell_LInc:
  "nodeLeftInclusiveAtRisk (inclusiveCell R k j t) j' k' =
     (if j' = j \<and> k' = k
      then creditOthers (nodeLeftEventCR t) R j k (nodeLeftAtRisk t k)
      else nodeLeftInclusiveAtRisk t j' k')"
  by (simp add: inclusiveCell_def)

lemma fold_cells_frame [simp]:
  "nodeParentAtRisk (fold (inclusiveCell R k) js t) = nodeParentAtRisk t"
  "nodeLeftAtRisk (fold (inclusiveCell R k) js t) = nodeLeftAtRisk t"
  "nodeParentEvent (fold (inclusiveCell R k) js t) = nodeParentEvent t"
  "nodeLeftEvent (fold (inclusiveCell R k) js t) = nodeLeftEvent t"
  "nodeParentEventCR (fold (inclusiveCell R k) js t) = nodeParentEventCR t"
  "nodeLeftEventCR (fold (inclusiveCell R k) js t) = nodeLeftEventCR t"
  by (induction js arbitrary: t) simp_all

lemma fold_cells_PInc:
  "nodeParentInclusiveAtRisk (fold (inclusiveCell R k) js t) j' k' =
     (if j' \<in> set js \<and> k' = k
      then creditOthers (nodeParentEventCR t) R j' k (nodeParentAtRisk t k)
      else nodeParentInclusiveAtRisk t j' k')"
  by (induction js arbitrary: t) (auto simp: inclusiveCell_PInc)

lemma fold_cells_LInc:
  "nodeLeftInclusiveAtRisk (fold (inclusiveCell R k) js t) j' k' =
     (if j' \<in> set js \<and> k' = k
      then creditOthers (nodeLeftEventCR t) R j' k (nodeLeftAtRisk t k)
      else nodeLeftInclusiveAtRisk t j' k')"
  by (induction js arbitrary: t) (auto simp: inclusiveCell_LInc)

lemma fold_rows_frame [simp]:
  "nodeParentAtRisk (fold (\<lambda>k. fold (inclusiveCell R k) js) ks t) = nodeParentAtRisk t"
  "nodeLeftAtRisk (fold (\<lambda>k. fold (inclusiveCell R k) js) ks t) = nodeLeftAtRisk t"
  "nodeParentEvent (fold (\<lambda>k. fold (inclusiveCell R k) js) ks t) = nodeParentEvent t"
  "nodeLeftEvent (fold (\<lambda>k. fold (inclusiveCell R k) js) ks t) = nodeLeftEvent t"
  "nodeParentEventCR (fold (\<lambda>k. fold (inclusiveCell R k) js) ks t) = nodeParentEventCR t"
  "nodeLeftEventCR (fold (\<lambda>k. fold (inclusiveCell R k) js) ks t) = nodeLeftEventCR t"
  by (induction ks arbitrary: t) simp_all

lemma fold_rows_PInc:
  "nodeParentInclusiveAtRisk (fold (\<lambda>k. fold (inclusiveCell R k) js) ks t) j' k' =
     (if j' \<in> set js \<and> k' \<in> set ks
      then creditOthers (nodeParentEventCR t) R j' k' (nodeParentAtRisk t k')
      else nodeParentInclusiveAtRisk t j' k')"
  by (induction ks arbitrary: t) (auto simp: fold_cells_PInc)

lemma fold_rows_LInc:
  "nodeLeftInclusiveAtRisk (fold (\<lambda>k. fold (inclusiveCell R k) js) ks t) j' k' =
     (if j' \<in> set js \<and> k' \<in> set ks
      then creditOthers (nodeLeftEventCR t) R j' k' (nodeLeftAtRisk t k')
      else nodeLeftInclusiveAtRisk t j' k')"
  by (induction ks arbitrary: t) (auto simp: fold_cells_LInc)

lemma inclusiveAtRisk_frame [simp]:
  "nodeParentAtRisk (inclusiveAtRisk R K t) = nodeParentAtRisk t"
  "nodeLeftAtRisk (inclusiveAtRisk R K t) = nodeLeftAtRisk t"
  "nodeParentEvent (inclusiveAtRisk R K t) = nodeParentEvent t"
  "nodeLeftEvent (inclusiveAtRisk R K t) = nodeLeftEvent t"
  "nodeParentEventCR (inclusiveAtRisk R K t) = nodeParentEventCR t"
  "nodeLeftEventCR (inclusiveAtRisk R K t) = nodeLeftEventCR t"
  unfolding inclusiveAtRisk_def by simp_all

lemma inclusiveAtRisk_PInc:
  assumes "1 \<le> j" "j \<le> R" "1 \<le> k" "k \<le> K"
  shows "nodeParentInclusiveAtRisk (inclusiveAtRisk R K t) j k =
     nodeParentAtRisk t k + (\<Sum>s = 1..<k. \<Sum>r = 1..R. if j \<noteq> r then nodeParentEventCR t r s else 0)"
  unfolding inclusiveAtRisk_def fold_rows_PInc creditOthers_sum using assms by simp

lemma inclusiveAtRisk_LInc:
  assumes "1 \<le> j" "j \<le> R" "1 \<le> k" "k \<le> K"
  shows "nodeLeftInclusiveAtRisk (inclusiveAtRisk R K t) j k =
     nodeLeftAtRisk t k + (\<Sum>s = 1..<k. \<Sum>r = 1..R. if j \<noteq> r then nodeLeftEventCR t r s else 0)"
  unfolding inclusiveAtRisk_def fold_rows_LInc creditOthers_sum using assms by simp


lemma tablesCR_Inr:
  assumes "tablesCR n m tm ev R K et = Inr t"
  obtains raw where "sweepCR m tm ev R et (unat n) (unat K) resetTablesCR = Inr raw"
    and "t = inclusiveAtRisk (unat R) (unat K)
          (raw\<lparr> nodeParentAtRisk := stepFunction (unat K) (nodeParentAtRisk raw),
                nodeLeftAtRisk := stepFunction (unat K) (nodeLeftAtRisk raw) \<rparr>)"
  using assms by (auto simp: tablesCR_def split: sum.splits)

lemma tablesCR_atRisk:
  assumes "tablesCR n m tm ev R K et = Inr t"
  shows "nodeParentAtRisk t = nodeParentAtRisk (atRiskTables n m tm ev K et)"
    and "nodeLeftAtRisk t = nodeLeftAtRisk (atRiskTables n m tm ev K et)"
    and "nodeParentEvent t = nodeParentEvent (atRiskTables n m tm ev K et)"
proof -
  from assms obtain raw where raw: "sweepCR m tm ev R et (unat n) (unat K) resetTablesCR = Inr raw"
    and t: "t = inclusiveAtRisk (unat R) (unat K)
          (raw\<lparr> nodeParentAtRisk := stepFunction (unat K) (nodeParentAtRisk raw),
                nodeLeftAtRisk := stepFunction (unat K) (nodeLeftAtRisk raw) \<rparr>)"
    by (rule tablesCR_Inr)
  show "nodeParentAtRisk t = nodeParentAtRisk (atRiskTables n m tm ev K et)"
    by (simp add: t atRiskTables_PA sweepCR_atRisk(1) [OF raw])
  show "nodeLeftAtRisk t = nodeLeftAtRisk (atRiskTables n m tm ev K et)"
    by (simp add: t atRiskTables_LA sweepCR_atRisk(2) [OF raw])
  show "nodeParentEvent t = nodeParentEvent (atRiskTables n m tm ev K et)"
    by (simp add: t atRiskTables_def Let_def sweepCR_atRisk(3) [OF raw])
qed

lemma sum_others:
  fixes f :: "nat \<Rightarrow> 'a::comm_monoid_add"
  shows "(\<Sum>r = 1..R. if j \<noteq> r then f r else 0) = (\<Sum>r\<in>{1..R} - {j}. f r)"
proof -
  have "(\<Sum>r = 1..R. if j \<noteq> r then f r else 0) = sum f ({1..R} \<inter> {r. j \<noteq> r})"
    by (simp add: sum.If_cases)
  moreover have "{1..R} \<inter> {r. j \<noteq> r} = {1..R} - {j}" by auto
  ultimately show ?thesis by simp
qed

lemma unat_double_sum:
  fixes e :: "nat \<Rightarrow> nat \<Rightarrow> uint"
  assumes "finite S" "finite T" "(\<Sum>s\<in>S. \<Sum>r\<in>T. unat (e r s)) < 2 ^ 32"
  shows "unat (\<Sum>s\<in>S. \<Sum>r\<in>T. e r s) = (\<Sum>s\<in>S. \<Sum>r\<in>T. unat (e r s))"
proof -
  have inner: "unat (\<Sum>r\<in>T. e r s) = (\<Sum>r\<in>T. unat (e r s))" if "s \<in> S" for s
  proof -
    have "(\<Sum>r\<in>T. unat (e r s)) \<le> (\<Sum>s\<in>S. \<Sum>r\<in>T. unat (e r s))"
      using member_le_sum [OF that, of "\<lambda>s. \<Sum>r\<in>T. unat (e r s)"] assms(1) by simp
    with assms(3) have "(\<Sum>r\<in>T. unat (e r s)) < 2 ^ 32" by simp
    then show ?thesis by (rule unat_sum_words [OF assms(2)])
  qed
  have "(\<Sum>s\<in>S. unat (\<Sum>r\<in>T. e r s)) = (\<Sum>s\<in>S. \<Sum>r\<in>T. unat (e r s))"
    by (rule sum.cong) (simp_all add: inner)
  with assms(3) have "(\<Sum>s\<in>S. unat (\<Sum>r\<in>T. e r s)) < 2 ^ 32" by simp
  from unat_sum_words [OF assms(1) this] inner show ?thesis by simp
qed

lemma inclusive_bound:
  fixes n R K :: uint
  assumes run: "tablesCR n m tm ev R K et = Inr t" and k: "1 \<le> k" "k \<le> unat K"
  shows "unat (nodeParentAtRisk t k)
           + (\<Sum>s = 1..<k. \<Sum>r = 1..unat R. unat (nodeParentEventCR t r s)) \<le> unat n"
    and "unat (nodeLeftEventCR t r s) \<le> unat (nodeParentEventCR t r s)"
proof -
  from run obtain raw where raw: "sweepCR m tm ev R et (unat n) (unat K) resetTablesCR = Inr raw"
    and t: "t = inclusiveAtRisk (unat R) (unat K)
          (raw\<lparr> nodeParentAtRisk := stepFunction (unat K) (nodeParentAtRisk raw),
                nodeLeftAtRisk := stepFunction (unat K) (nodeLeftAtRisk raw) \<rparr>)"
    by (rule tablesCR_Inr)
  have pe: "nodeParentEventCR t = nodeParentEventCR raw" and le: "nodeLeftEventCR t = nodeLeftEventCR raw"
    by (simp_all add: t)
  show "unat (nodeLeftEventCR t r s) \<le> unat (nodeParentEventCR t r s)"
    unfolding pe le by (rule sweepCR_events(2) [OF raw])
  let ?raw = "sweep m tm ev et (unat n) (unat K) resetTables"
  have praw: "nodeParentAtRisk raw = nodeParentAtRisk ?raw" by (rule sweepCR_atRisk(1) [OF raw])
  have "unat (nodeParentAtRisk t k) = (\<Sum>j = k..unat K. unat (nodeParentAtRisk raw j))"
    unfolding tablesCR_atRisk(1) [OF run] praw by (rule atRisk_unat(1) [OF k])
  moreover have "(\<Sum>s = 1..<k. \<Sum>r = 1..unat R. unat (nodeParentEventCR t r s))
      \<le> (\<Sum>s = 1..<k. unat (nodeParentAtRisk raw s))"
    unfolding pe using sweepCR_events(1) [OF raw] by (intro sum_mono) (simp add: total_def)
  moreover have "(\<Sum>s = 1..<k. unat (nodeParentAtRisk raw s)) + (\<Sum>j = k..unat K. unat (nodeParentAtRisk raw j))
      = total (nodeParentAtRisk raw) (unat K)"
  proof -
    have "{1..unat K} = {1..<k} \<union> {k..unat K}" using k by auto
    moreover have "{1..<k} \<inter> {k..unat K} = {}" by auto
    ultimately show ?thesis
      unfolding total_def by (simp add: sum.union_disjoint)
  qed
  moreover have "total (nodeParentAtRisk raw) (unat K) \<le> unat n"
    unfolding praw using atRisk_counts [of m tm ev et n K] by simp
  ultimately show "unat (nodeParentAtRisk t k)
           + (\<Sum>s = 1..<k. \<Sum>r = 1..unat R. unat (nodeParentEventCR t r s)) \<le> unat n"
    by simp
qed


lemma atRisk_left_le:
  fixes n eventTimeSize :: uint
  assumes k: "1 \<le> k" "k \<le> unat eventTimeSize"
  shows "unat (nodeLeftAtRisk (atRiskTables n membership time event eventTimeSize eventTime) k)
     \<le> unat (nodeParentAtRisk (atRiskTables n membership time event eventTimeSize eventTime) k)"
proof -
  let ?raw = "sweep membership time event eventTime (unat n) (unat eventTimeSize) resetTables"
  have le: "\<And>j. unat (nodeLeftAtRisk ?raw j) \<le> unat (nodeParentAtRisk ?raw j)"
    using atRisk_counts [of membership time event eventTime n eventTimeSize] by simp
  show ?thesis
    unfolding atRisk_unat(1,2) [OF k] by (rule sum_mono) (rule le)
qed

lemma inclusive_sums:
  fixes n eventTypeSize eventTimeSize :: uint
  assumes run: "tablesCR n membership time event eventTypeSize eventTimeSize eventTime = Inr t"
    and j: "1 \<le> j" "j \<le> unat eventTypeSize" and k: "1 \<le> k" "k \<le> unat eventTimeSize"
  shows "nodeParentInclusiveAtRisk t j k = nodeParentAtRisk t k
            + (\<Sum>s = 1..<k. \<Sum>r\<in>{1..unat eventTypeSize} - {j}. nodeParentEventCR t r s)"
    and "nodeLeftInclusiveAtRisk t j k = nodeLeftAtRisk t k
            + (\<Sum>s = 1..<k. \<Sum>r\<in>{1..unat eventTypeSize} - {j}. nodeLeftEventCR t r s)"
    and "unat (nodeParentInclusiveAtRisk t j k) = unat (nodeParentAtRisk t k)
            + (\<Sum>s = 1..<k. \<Sum>r\<in>{1..unat eventTypeSize} - {j}. unat (nodeParentEventCR t r s))"
    and "unat (nodeLeftInclusiveAtRisk t j k) = unat (nodeLeftAtRisk t k)
            + (\<Sum>s = 1..<k. \<Sum>r\<in>{1..unat eventTypeSize} - {j}. unat (nodeLeftEventCR t r s))"
    and "unat (nodeLeftInclusiveAtRisk t j k) \<le> unat (nodeParentInclusiveAtRisk t j k)"
    and "unat (nodeParentInclusiveAtRisk t j k) \<le> unat n"
proof -
  let ?R = "unat eventTypeSize" and ?K = "unat eventTimeSize"
  let ?O = "{1..?R} - {j}"
  from run obtain raw where raw: "sweepCR membership time event eventTypeSize eventTime (unat n) ?K resetTablesCR = Inr raw"
    and t: "t = inclusiveAtRisk ?R ?K
          (raw\<lparr> nodeParentAtRisk := stepFunction ?K (nodeParentAtRisk raw),
                nodeLeftAtRisk := stepFunction ?K (nodeLeftAtRisk raw) \<rparr>)"
    by (rule tablesCR_Inr)
  show P: "nodeParentInclusiveAtRisk t j k = nodeParentAtRisk t k
            + (\<Sum>s = 1..<k. \<Sum>r\<in>?O. nodeParentEventCR t r s)"
    unfolding t inclusiveAtRisk_PInc [OF j k] sum_others by simp
  show L: "nodeLeftInclusiveAtRisk t j k = nodeLeftAtRisk t k
            + (\<Sum>s = 1..<k. \<Sum>r\<in>?O. nodeLeftEventCR t r s)"
    unfolding t inclusiveAtRisk_LInc [OF j k] sum_others by simp
  have n32: "unat n < 2 ^ 32" by (rule unat_uint_less)
  have sub: "(\<Sum>r\<in>?O. f r) \<le> (\<Sum>r = 1..?R. f r)" for f :: "nat \<Rightarrow> nat"
    by (rule sum_mono2) auto
  have pb: "(\<Sum>s = 1..<k. \<Sum>r\<in>?O. unat (nodeParentEventCR t r s))
        \<le> (\<Sum>s = 1..<k. \<Sum>r = 1..?R. unat (nodeParentEventCR t r s))"
    by (intro sum_mono sub)
  have lb: "(\<Sum>s = 1..<k. \<Sum>r\<in>?O. unat (nodeLeftEventCR t r s))
        \<le> (\<Sum>s = 1..<k. \<Sum>r\<in>?O. unat (nodeParentEventCR t r s))"
    by (intro sum_mono inclusive_bound(2) [OF run k])
  have la: "unat (nodeLeftAtRisk t k) \<le> unat (nodeParentAtRisk t k)"
    unfolding tablesCR_atRisk(1,2) [OF run] by (rule atRisk_left_le [OF k])
  note bound = inclusive_bound(1) [OF run k]
  have pw: "unat (\<Sum>s = 1..<k. \<Sum>r\<in>?O. nodeParentEventCR t r s)
        = (\<Sum>s = 1..<k. \<Sum>r\<in>?O. unat (nodeParentEventCR t r s))"
    using pb bound n32 by (intro unat_double_sum) simp_all
  have lw: "unat (\<Sum>s = 1..<k. \<Sum>r\<in>?O. nodeLeftEventCR t r s)
        = (\<Sum>s = 1..<k. \<Sum>r\<in>?O. unat (nodeLeftEventCR t r s))"
    using lb pb bound n32 by (intro unat_double_sum) simp_all
  show Pn: "unat (nodeParentInclusiveAtRisk t j k) = unat (nodeParentAtRisk t k)
            + (\<Sum>s = 1..<k. \<Sum>r\<in>?O. unat (nodeParentEventCR t r s))"
    unfolding P using pb bound n32 pw
      unat_add_lem [of "nodeParentAtRisk t k" "\<Sum>s = 1..<k. \<Sum>r\<in>?O. nodeParentEventCR t r s"]
    by simp
  show Ln: "unat (nodeLeftInclusiveAtRisk t j k) = unat (nodeLeftAtRisk t k)
            + (\<Sum>s = 1..<k. \<Sum>r\<in>?O. unat (nodeLeftEventCR t r s))"
    unfolding L using la lb pb bound n32 lw
      unat_add_lem [of "nodeLeftAtRisk t k" "\<Sum>s = 1..<k. \<Sum>r\<in>?O. nodeLeftEventCR t r s"]
    by simp
  show "unat (nodeLeftInclusiveAtRisk t j k) \<le> unat (nodeParentInclusiveAtRisk t j k)"
    unfolding Pn Ln using la lb by simp
  show "unat (nodeParentInclusiveAtRisk t j k) \<le> unat n"
    unfolding Pn using pb bound by simp
qed

text \<open>
  Claim C3. In \<^verbatim>\<open>getCustomSplitStatisticCompetingRisk\<close>, after the suffix sum and the
  inclusive at-risk step, for every cause \<open>j\<close> in \<open>[1, eventTypeSize]\<close> and every time index \<open>k\<close>
  in \<open>[1, eventTimeSize]\<close>:
  \<open>nodeParentInclusiveAtRisk[j][k] = nodeParentAtRisk[k] + \<Sum>\<^bsub>s=1..k-1\<^esub> \<Sum>\<^bsub>r\<noteq>j\<^esub> nodeParentEventCR[r][s]\<close>,
  and likewise for the left tables. The equations hold between the \<^verbatim>\<open>unsigned int\<close> values and
  between the numbers they stand for: the sums never wrap.
\<close>

theorem inclusive_atRisk:
  fixes n eventTypeSize eventTimeSize :: uint
  assumes "tablesCR n membership time event eventTypeSize eventTimeSize eventTime = Inr t"
    and "1 \<le> j" "j \<le> unat eventTypeSize" and "1 \<le> k" "k \<le> unat eventTimeSize"
  shows "nodeParentInclusiveAtRisk t j k = nodeParentAtRisk t k
            + (\<Sum>s = 1..<k. \<Sum>r\<in>{1..unat eventTypeSize} - {j}. nodeParentEventCR t r s)
       \<and> nodeLeftInclusiveAtRisk t j k = nodeLeftAtRisk t k
            + (\<Sum>s = 1..<k. \<Sum>r\<in>{1..unat eventTypeSize} - {j}. nodeLeftEventCR t r s)
       \<and> unat (nodeParentInclusiveAtRisk t j k) = unat (nodeParentAtRisk t k)
            + (\<Sum>s = 1..<k. \<Sum>r\<in>{1..unat eventTypeSize} - {j}. unat (nodeParentEventCR t r s))
       \<and> unat (nodeLeftInclusiveAtRisk t j k) = unat (nodeLeftAtRisk t k)
            + (\<Sum>s = 1..<k. \<Sum>r\<in>{1..unat eventTypeSize} - {j}. unat (nodeLeftEventCR t r s))"
  using inclusive_sums(1-4) [OF assms] by simp


theorem inclusive_atRisk_witness:
  "\<exists>t. tablesCR 4 (arr [LEFT, RIGHT, LEFT, RIGHT]) (arr [1, 2, 3, 4]) (arr [1, 0, 2, 1]) 2 3
          (arr [1, 3, 4]) = Inr t
     \<and> nodeParentInclusiveAtRisk t 1 3 = nodeParentAtRisk t 3
            + (\<Sum>s = 1..<3. \<Sum>r\<in>{1..2} - {1}. nodeParentEventCR t r s)
     \<and> unat (nodeLeftInclusiveAtRisk t 1 3) = unat (nodeLeftAtRisk t 3)
            + (\<Sum>s = 1..<3. \<Sum>r\<in>{1..2} - {1}. unat (nodeLeftEventCR t r s))"
proof -
  have "\<not> isl (tablesCR 4 (arr [LEFT, RIGHT, LEFT, RIGHT]) (arr [1, 2, 3, 4]) (arr [1, 0, 2, 1]) 2 3
          (arr [1, 3, 4]))"
    by code_simp
  then obtain t where run: "tablesCR 4 (arr [LEFT, RIGHT, LEFT, RIGHT]) (arr [1, 2, 3, 4])
      (arr [1, 0, 2, 1]) 2 3 (arr [1, 3, 4]) = Inr t"
    by (cases "tablesCR 4 (arr [LEFT, RIGHT, LEFT, RIGHT]) (arr [1, 2, 3, 4]) (arr [1, 0, 2, 1]) 2 3
          (arr [1, 3, 4])") auto
  have "(1::nat) \<le> 1" "1 \<le> unat (2::uint)" "(1::nat) \<le> 3" "3 \<le> unat (3::uint)" by simp_all
  note T = inclusive_atRisk [OF run this]
  have u2: "unat (2::uint) = 2" by simp
  from T [unfolded u2] run show ?thesis by blast
qed

section \<open>The accumulated sums\<close>

lemma fold_pair:
  "fold (\<lambda>k (a, b). (f k a, g k b)) xs (a0, b0) = (fold (\<lambda>k. f k) xs a0, fold (\<lambda>k. g k) xs b0)"
  by (induction xs arbitrary: a0 b0) simp_all

lemma dadd_simps [simp]:
  "dadd None y = None" "dadd x None = None" "dadd (Some a) (Some b) = Some (a + b)"
  by (simp_all add: dadd_def split: option.splits)

lemma dsub_simps [simp]:
  "dsub None y = None" "dsub x None = None" "dsub (Some a) (Some b) = Some (a - b)"
  by (simp_all add: dsub_def split: option.splits)

lemma dmul_simps [simp]:
  "dmul None y = None" "dmul x None = None" "dmul (Some a) (Some b) = Some (a * b)"
  by (simp_all add: dmul_def split: option.splits)

lemma ddiv_simps [simp]:
  "ddiv x 0 = None" "y \<noteq> 0 \<Longrightarrow> ddiv x y = Some (x / y)"
  by (simp_all add: ddiv_def)

lemma dbl_eq_0 [simp]: "dbl w = 0 \<longleftrightarrow> w = 0"
  by (simp add: dbl_def unsigned_eq_0_iff)

lemma dbl_nonneg [simp]: "0 \<le> dbl w"
  by (simp only: dbl_def of_nat_0_le_iff)

lemma fold_dadd_None [simp]: "fold (\<lambda>k s. dadd s (g k)) xs None = None"
  by (induction xs) simp_all

lemma fold_dadd_Some:
  "(\<And>k. k \<in> set xs \<Longrightarrow> g k \<noteq> None) \<Longrightarrow>
   fold (\<lambda>k s. dadd s (g k)) xs (Some z) = Some (z + (\<Sum>k\<leftarrow>xs. the (g k)))"
proof (induction xs arbitrary: z)
  case Nil
  then show ?case by simp
next
  case (Cons x xs)
  from Cons.prems [of x] obtain v where v: "g x = Some v" by auto
  have "fold (\<lambda>k s. dadd s (g k)) xs (Some (z + v)) = Some (z + v + (\<Sum>k\<leftarrow>xs. the (g k)))"
    by (rule Cons.IH) (simp add: Cons.prems)
  then show ?case by (simp add: v ac_simps)
qed

lemma logrankSums_fst:
  "fst (logrankSums t K) =
     fold (\<lambda>k s. dadd s (dsub (Some (dbl (nodeLeftEvent t k)))
        (ddiv (dbl (nodeLeftAtRisk t k * nodeParentEvent t k)) (dbl (nodeParentAtRisk t k)))))
       [1..<Suc K] (Some 0)"
  unfolding logrankSums_def fold_pair logrankNum_def by simp

lemma logrankSums_snd:
  "snd (logrankSums t K) = fold (\<lambda>k. logrankDen t k) [1..<Suc K] 0"
  unfolding logrankSums_def fold_pair by simp

lemma logrankSums_defined:
  assumes "\<And>k. 1 \<le> k \<Longrightarrow> k \<le> K \<Longrightarrow> nodeParentAtRisk t k \<noteq> 0"
  shows "fst (logrankSums t K) \<noteq> None"
  unfolding logrankSums_fst
  by (subst fold_dadd_Some) (use assms in auto)

lemma logrankSumsCR_fst:
  "fst (logrankSumsCR t R K) =
     fold (\<lambda>j s. dadd s (fold (\<lambda>k s. dadd s (numTermCR t j k)) [1..<Suc K] (Some 0)))
       [1..<Suc R] (Some 0)"
  unfolding logrankSumsCR_def Let_def fold_pair by simp

lemma logrankSumsCR_snd:
  "snd (logrankSumsCR t R K) =
     fold (\<lambda>j s. dadd s (fold (\<lambda>k s. if nodeParentAtRisk t k \<ge> 2 then dadd s (denTermCR t j k) else s)
                            [1..<Suc K] (Some 0)))
       [1..<Suc R] (Some 0)"
  unfolding logrankSumsCR_def Let_def fold_pair by simp

lemma numTermCR_defined:
  "nodeParentInclusiveAtRisk t j k \<noteq> 0 \<Longrightarrow> numTermCR t j k \<noteq> None"
  by (simp add: numTermCR_def)

lemma logrankSumsCR_defined:
  assumes "\<And>j k. 1 \<le> j \<Longrightarrow> j \<le> R \<Longrightarrow> 1 \<le> k \<Longrightarrow> k \<le> K \<Longrightarrow> nodeParentInclusiveAtRisk t j k \<noteq> 0"
  shows "fst (logrankSumsCR t R K) \<noteq> None"
proof -
  have "fold (\<lambda>k s. dadd s (numTermCR t j k)) [1..<Suc K] (Some 0) \<noteq> None"
    if "j \<in> set [1..<Suc R]" for j
    by (subst fold_dadd_Some) (use that assms numTermCR_defined in auto)
  then show ?thesis
    unfolding logrankSumsCR_fst by (subst fold_dadd_Some) auto
qed


lemma atRisk_nonzero:
  fixes n eventTimeSize :: uint
  assumes sorted: "\<forall>i. 1 \<le> i \<and> i < unat n \<longrightarrow> time i \<le> time (Suc i)"
    and observed: "\<forall>k. 1 \<le> k \<and> k \<le> unat eventTimeSize \<longrightarrow>
                     (\<exists>i. 1 \<le> i \<and> i \<le> unat n \<and> time i = eventTime k)"
    and k: "1 \<le> k" "k \<le> unat eventTimeSize"
  shows "1 \<le> unat (nodeParentAtRisk (atRiskTables n membership time event eventTimeSize eventTime) k)"
proof -
  let ?raw = "sweep membership time event eventTime (unat n) (unat eventTimeSize) resetTables"
  from sweep_covers [OF sorted observed k, of membership event]
  obtain j where j: "k \<le> j" "j \<le> unat eventTimeSize" "nodeParentAtRisk ?raw j \<noteq> 0"
    by blast
  then have "1 \<le> unat (nodeParentAtRisk ?raw j)"
    by (simp add: unat_gt_0 Suc_le_eq)
  also have "\<dots> \<le> (\<Sum>j = k..unat eventTimeSize. unat (nodeParentAtRisk ?raw j))"
    using j(1,2) by (intro member_le_sum) simp_all
  finally show ?thesis
    unfolding atRisk_unat(1) [OF k] .
qed

text \<open>
  Claim C10. When \<open>time\<close> is sorted ascending and every \<open>eventTime[k]\<close> is the time of some
  observation, then after the sweep and the suffix sum \<open>nodeParentAtRisk[k] \<ge> 1\<close> for every
  \<open>k\<close> in \<open>[1, eventTimeSize]\<close>, so no division of the survival numerator is by zero and the
  accumulated numerator is finite; in \<^verbatim>\<open>getCustomSplitStatisticCompetingRisk\<close>
  \<open>nodeParentInclusiveAtRisk[j][k] \<ge> nodeParentAtRisk[k] \<ge> 1\<close>, and its accumulated numerator
  is finite as well. That \<open>eventTime\<close> increases strictly and that the observation found has
  an event is not needed.
\<close>

theorem atRisk_positive:
  fixes n eventTypeSize eventTimeSize :: uint
  assumes sorted: "\<forall>i. 1 \<le> i \<and> i < unat n \<longrightarrow> time i \<le> time (Suc i)"
    and observed: "\<forall>k. 1 \<le> k \<and> k \<le> unat eventTimeSize \<longrightarrow>
                     (\<exists>i. 1 \<le> i \<and> i \<le> unat n \<and> time i = eventTime k)"
  shows "(\<forall>k. 1 \<le> k \<and> k \<le> unat eventTimeSize \<longrightarrow>
            1 \<le> nodeParentAtRisk (atRiskTables n membership time event eventTimeSize eventTime) k)
       \<and> fst (logrankSums (atRiskTables n membership time event eventTimeSize eventTime)
                 (unat eventTimeSize)) \<noteq> None
       \<and> (\<forall>t. tablesCR n membership time event eventTypeSize eventTimeSize eventTime = Inr t \<longrightarrow>
             (\<forall>j k. 1 \<le> j \<and> j \<le> unat eventTypeSize \<and> 1 \<le> k \<and> k \<le> unat eventTimeSize \<longrightarrow>
                  1 \<le> nodeParentAtRisk t k
                  \<and> nodeParentAtRisk t k \<le> nodeParentInclusiveAtRisk t j k)
             \<and> fst (logrankSumsCR t (unat eventTypeSize) (unat eventTimeSize)) \<noteq> None)"
proof (intro conjI allI impI)
  let ?s = "atRiskTables n membership time event eventTimeSize eventTime"
  have pos: "1 \<le> unat (nodeParentAtRisk ?s k)" if "1 \<le> k" "k \<le> unat eventTimeSize" for k
    by (rule atRisk_nonzero [OF sorted observed that])
  show "1 \<le> nodeParentAtRisk ?s k" if "1 \<le> k \<and> k \<le> unat eventTimeSize" for k
    using pos [of k] that by (simp add: word_le_nat_alt)
  show "fst (logrankSums ?s (unat eventTimeSize)) \<noteq> None"
  proof (rule logrankSums_defined)
    fix k assume "1 \<le> k" "k \<le> unat eventTimeSize"
    from pos [OF this] show "nodeParentAtRisk ?s k \<noteq> 0" by auto
  qed
  fix t
  assume run: "tablesCR n membership time event eventTypeSize eventTimeSize eventTime = Inr t"
  have cr: "1 \<le> unat (nodeParentAtRisk t k)
      \<and> unat (nodeParentAtRisk t k) \<le> unat (nodeParentInclusiveAtRisk t j k)"
    if "1 \<le> j" "j \<le> unat eventTypeSize" "1 \<le> k" "k \<le> unat eventTimeSize" for j k
    using pos [OF that(3,4)] inclusive_sums(3) [OF run that]
    by (simp add: tablesCR_atRisk(1) [OF run])
  show "1 \<le> nodeParentAtRisk t k"
    if "1 \<le> j \<and> j \<le> unat eventTypeSize \<and> 1 \<le> k \<and> k \<le> unat eventTimeSize" for j k
    using cr [of j k] that by (simp add: word_le_nat_alt)
  show "nodeParentAtRisk t k \<le> nodeParentInclusiveAtRisk t j k"
    if "1 \<le> j \<and> j \<le> unat eventTypeSize \<and> 1 \<le> k \<and> k \<le> unat eventTimeSize" for j k
    using cr [of j k] that by (simp add: word_le_nat_alt)
  show "fst (logrankSumsCR t (unat eventTypeSize) (unat eventTimeSize)) \<noteq> None"
  proof (rule logrankSumsCR_defined)
    fix j k assume "1 \<le> j" "j \<le> unat eventTypeSize" "1 \<le> k" "k \<le> unat eventTimeSize"
    from cr [OF this] show "nodeParentInclusiveAtRisk t j k \<noteq> 0" by auto
  qed
qed


theorem atRisk_positive_witness:
  "1 \<le> nodeParentAtRisk (atRiskTables 4 (arr [LEFT, RIGHT, LEFT, RIGHT]) (arr [1, 2, 3, 4])
          (arr [1, 0, 2, 1]) 3 (arr [1, 3, 4])) 3
   \<and> fst (logrankSums (atRiskTables 4 (arr [LEFT, RIGHT, LEFT, RIGHT]) (arr [1, 2, 3, 4])
          (arr [1, 0, 2, 1]) 3 (arr [1, 3, 4])) (unat (3::uint))) \<noteq> None
   \<and> (\<exists>t. tablesCR 4 (arr [LEFT, RIGHT, LEFT, RIGHT]) (arr [1, 2, 3, 4]) (arr [1, 0, 2, 1]) 2 3
            (arr [1, 3, 4]) = Inr t
        \<and> 1 \<le> nodeParentAtRisk t 3
        \<and> nodeParentAtRisk t 3 \<le> nodeParentInclusiveAtRisk t 2 3
        \<and> fst (logrankSumsCR t (unat (2::uint)) (unat (3::uint))) \<noteq> None)"
proof -
  let ?time = "arr [1, 2, 3, 4 :: real]" and ?et = "arr [1, 3, 4 :: real]"
  have r3: "(1 \<le> i \<and> i < 4) = (i = 1 \<or> i = 2 \<or> i = 3)"
    and r3': "(1 \<le> i \<and> i \<le> 3) = (i = 1 \<or> i = 2 \<or> i = 3)" for i :: nat
    by auto
  have u4: "unat (4::uint) = 4" and u3: "unat (3::uint) = 3" by simp_all
  have sorted: "\<forall>i. 1 \<le> i \<and> i < unat (4::uint) \<longrightarrow> ?time i \<le> ?time (Suc i)"
    unfolding u4 r3 by (auto simp: arr_def)
  have "\<exists>i. 1 \<le> i \<and> i \<le> 4 \<and> ?time i = ?et 1" by (rule exI [of _ 1]) (simp add: arr_def)
  moreover have "\<exists>i. 1 \<le> i \<and> i \<le> 4 \<and> ?time i = ?et 2" by (rule exI [of _ 3]) (simp add: arr_def)
  moreover have "\<exists>i. 1 \<le> i \<and> i \<le> 4 \<and> ?time i = ?et 3" by (rule exI [of _ 4]) (simp add: arr_def)
  ultimately have observed: "\<forall>k. 1 \<le> k \<and> k \<le> unat (3::uint) \<longrightarrow>
      (\<exists>i. 1 \<le> i \<and> i \<le> unat (4::uint) \<and> ?time i = ?et k)"
    unfolding u4 u3 r3' by blast
  have "\<not> isl (tablesCR 4 (arr [LEFT, RIGHT, LEFT, RIGHT]) ?time (arr [1, 0, 2, 1]) 2 3 ?et)"
    by code_simp
  then obtain t where run: "tablesCR 4 (arr [LEFT, RIGHT, LEFT, RIGHT]) ?time
      (arr [1, 0, 2, 1]) 2 3 ?et = Inr t"
    by (cases "tablesCR 4 (arr [LEFT, RIGHT, LEFT, RIGHT]) ?time (arr [1, 0, 2, 1]) 2 3 ?et") auto
  note T = atRisk_positive [OF sorted observed, of "arr [LEFT, RIGHT, LEFT, RIGHT]"
      "arr [1, 0, 2, 1]" 2]
  from T have a: "1 \<le> nodeParentAtRisk (atRiskTables 4 (arr [LEFT, RIGHT, LEFT, RIGHT]) ?time
          (arr [1, 0, 2, 1]) 3 ?et) 3"
    by simp
  from T have b: "fst (logrankSums (atRiskTables 4 (arr [LEFT, RIGHT, LEFT, RIGHT]) ?time
          (arr [1, 0, 2, 1]) 3 ?et) (unat (3::uint))) \<noteq> None"
    by blast
  from T run have c: "(\<forall>j k. 1 \<le> j \<and> j \<le> unat (2::uint) \<and> 1 \<le> k \<and> k \<le> unat (3::uint) \<longrightarrow>
                  1 \<le> nodeParentAtRisk t k
                  \<and> nodeParentAtRisk t k \<le> nodeParentInclusiveAtRisk t j k)
             \<and> fst (logrankSumsCR t (unat (2::uint)) (unat (3::uint))) \<noteq> None"
    by blast
  then have "1 \<le> (2::nat) \<and> 2 \<le> unat (2::uint) \<and> 1 \<le> (3::nat) \<and> 3 \<le> unat (3::uint) \<longrightarrow>
      1 \<le> nodeParentAtRisk t 3 \<and> nodeParentAtRisk t 3 \<le> nodeParentInclusiveAtRisk t 2 3"
    by blast
  then have "1 \<le> nodeParentAtRisk t 3 \<and> nodeParentAtRisk t 3 \<le> nodeParentInclusiveAtRisk t 2 3"
    by simp
  with a b c run show ?thesis by blast
qed

section \<open>The zero guard\<close>

lemma fold_nonneg:
  fixes z :: real
  assumes "\<And>k d. k \<in> set xs \<Longrightarrow> 0 \<le> d \<Longrightarrow> 0 \<le> g k d" "0 \<le> z"
  shows "0 \<le> fold g xs z"
  using assms by (induction xs arbitrary: z) simp_all

lemma ratio_term_nonneg:
  fixes L P X Y E :: real
  assumes "0 \<le> L" "L \<le> P" "0 \<le> X" "0 \<le> Y" "0 \<le> E"
  shows "0 \<le> (L / P) * (1 - L / P) * (X / Y) * E"
proof -
  have "L / P \<le> 1" using assms(1,2) by (cases "P = 0") (simp_all add: divide_le_eq_1)
  then have "0 \<le> 1 - L / P" by simp
  moreover have "0 \<le> L / P" using assms(1,2) by simp
  moreover have "0 \<le> X / Y" using assms(3,4) by simp
  ultimately show ?thesis using assms(5) by (intro mult_nonneg_nonneg)
qed

lemma dbl_0 [simp]: "dbl 0 = 0"
  by (simp add: dbl_def)

lemma dbl_mono: "unat a \<le> unat b \<Longrightarrow> dbl a \<le> dbl b"
  by (simp only: dbl_def of_nat_le_iff)

lemma logrankDen_nonneg:
  assumes "0 \<le> d" "unat (nodeLeftAtRisk t k) \<le> unat (nodeParentAtRisk t k)"
  shows "0 \<le> logrankDen t k d"
  unfolding logrankDen_def
  using assms(1) ratio_term_nonneg [OF dbl_nonneg dbl_mono [OF assms(2)] dbl_nonneg dbl_nonneg dbl_nonneg]
  by (simp add: add_nonneg_nonneg)

lemma logrankSums_snd_nonneg:
  fixes n eventTimeSize :: uint
  shows "0 \<le> snd (logrankSums (atRiskTables n membership time event eventTimeSize eventTime)
           (unat eventTimeSize))"
  unfolding logrankSums_snd
  by (rule fold_nonneg) (auto intro!: logrankDen_nonneg atRisk_left_le)

lemma nonnegOpt_dadd: "nonnegOpt x \<Longrightarrow> nonnegOpt y \<Longrightarrow> nonnegOpt (dadd x y)"
  by (auto simp: nonnegOpt_def dadd_def split: option.splits)

lemma fold_nonnegOpt:
  assumes "\<And>k s. k \<in> set xs \<Longrightarrow> nonnegOpt s \<Longrightarrow> nonnegOpt (g k s)" "nonnegOpt z"
  shows "nonnegOpt (fold g xs z)"
  using assms by (induction xs arbitrary: z) simp_all

lemma denTermCR_nonneg:
  assumes "unat (nodeLeftInclusiveAtRisk t j k) \<le> unat (nodeParentInclusiveAtRisk t j k)"
  shows "nonnegOpt (denTermCR t j k)"
proof (cases "nodeParentInclusiveAtRisk t j k = 0 \<or> nodeParentInclusiveAtRisk t j k - 1 = 0")
  case True
  then show ?thesis by (auto simp: denTermCR_def nonnegOpt_def)
next
  case False
  have "0 \<le> (dbl (nodeLeftInclusiveAtRisk t j k) / dbl (nodeParentInclusiveAtRisk t j k))
       * (1 - dbl (nodeLeftInclusiveAtRisk t j k) / dbl (nodeParentInclusiveAtRisk t j k))
       * (dbl (nodeParentInclusiveAtRisk t j k - nodeParentEventCR t j k)
            / dbl (nodeParentInclusiveAtRisk t j k - 1))
       * dbl (nodeParentEventCR t j k)"
    by (rule ratio_term_nonneg [OF dbl_nonneg dbl_mono [OF assms] dbl_nonneg dbl_nonneg dbl_nonneg])
  then show ?thesis
    using False by (simp add: denTermCR_def nonnegOpt_def ac_simps)
qed

lemma logrankSumsCR_snd_nonneg:
  fixes n eventTypeSize eventTimeSize :: uint
  assumes "tablesCR n membership time event eventTypeSize eventTimeSize eventTime = Inr t"
  shows "nonnegOpt (snd (logrankSumsCR t (unat eventTypeSize) (unat eventTimeSize)))"
  unfolding logrankSumsCR_snd
proof (rule fold_nonnegOpt)
  show "nonnegOpt (Some 0)" by (simp add: nonnegOpt_def)
  fix j s
  assume j: "j \<in> set [1..<Suc (unat eventTypeSize)]" and s: "nonnegOpt s"
  have "nonnegOpt (fold (\<lambda>k s. if 2 \<le> nodeParentAtRisk t k then dadd s (denTermCR t j k) else s)
          [1..<Suc (unat eventTimeSize)] (Some 0))"
  proof (rule fold_nonnegOpt)
    show "nonnegOpt (Some 0)" by (simp add: nonnegOpt_def)
    fix k s'
    assume k: "k \<in> set [1..<Suc (unat eventTimeSize)]" and s': "nonnegOpt s'"
    have "unat (nodeLeftInclusiveAtRisk t j k) \<le> unat (nodeParentInclusiveAtRisk t j k)"
      using j k by (intro inclusive_sums(5) [OF assms]) auto
    then show "nonnegOpt (if 2 \<le> nodeParentAtRisk t k then dadd s' (denTermCR t j k) else s')"
      using s' by (simp add: nonnegOpt_dadd denTermCR_nonneg)
  qed
  with s show "nonnegOpt (dadd s (fold (\<lambda>k s. if 2 \<le> nodeParentAtRisk t k then dadd s (denTermCR t j k) else s)
          [1..<Suc (unat eventTimeSize)] (Some 0)))"
    by (rule nonnegOpt_dadd)
qed


lemma zeroGuard_finite:
  assumes "0 \<le> deltaDen"
  shows "zeroGuard (Some deltaNum) (Some deltaDen) =
           (if sqrt deltaDen \<le> 1 / 10 ^ 9 \<and> \<bar>deltaNum\<bar> \<le> 1 / 10 ^ 9 then Some 0
            else ddiv \<bar>deltaNum\<bar> (sqrt deltaDen))"
  using assms by (simp add: zeroGuard_def dfabs_def dsqrt_def)

text \<open>
  Claim C4. In \<^verbatim>\<open>getCustomSplitStatisticSurvival\<close> and in
  \<^verbatim>\<open>getCustomSplitStatisticCompetingRisk\<close>, with \<open>num\<close> the absolute value of the accumulated
  numerator and \<open>den\<close> the square root of the accumulated denominator: if \<open>den \<le> 1e-9\<close> and
  \<open>num \<le> 1e-9\<close> the result is exactly 0, and in every other case it is the quotient
  \<open>num / den\<close>, which is not a finite number when \<open>den = 0\<close>. The accumulated denominator is
  never negative, so its square root is defined.
\<close>

theorem zero_guard:
  fixes n eventTypeSize eventTimeSize :: uint
  assumes "eventTimeSize \<noteq> - 1"
  shows "0 \<le> snd (logrankSums (atRiskTables n membership time event eventTimeSize eventTime)
                  (unat eventTimeSize))
       \<and> (\<forall>deltaNum deltaDen.
             logrankSums (atRiskTables n membership time event eventTimeSize eventTime)
               (unat eventTimeSize) = (Some deltaNum, deltaDen) \<longrightarrow>
             getCustomSplitStatisticSurvival n membership time event eventTimeSize eventTime =
               Inr (if sqrt deltaDen \<le> 1 / 10 ^ 9 \<and> \<bar>deltaNum\<bar> \<le> 1 / 10 ^ 9 then Some 0
                    else ddiv \<bar>deltaNum\<bar> (sqrt deltaDen)))
       \<and> (\<forall>t deltaNum deltaDen.
             eventTypeSize \<noteq> - 1
             \<and> tablesCR n membership time event eventTypeSize eventTimeSize eventTime = Inr t
             \<and> logrankSumsCR t (unat eventTypeSize) (unat eventTimeSize) = (Some deltaNum, Some deltaDen)
             \<longrightarrow>
             0 \<le> deltaDen
             \<and> getCustomSplitStatisticCompetingRisk n membership time event eventTypeSize
                   eventTimeSize eventTime =
                 Inr (if sqrt deltaDen \<le> 1 / 10 ^ 9 \<and> \<bar>deltaNum\<bar> \<le> 1 / 10 ^ 9 then Some 0
                      else ddiv \<bar>deltaNum\<bar> (sqrt deltaDen)))"
proof (intro conjI allI impI)
  let ?s = "atRiskTables n membership time event eventTimeSize eventTime"
  show nn: "0 \<le> snd (logrankSums ?s (unat eventTimeSize))"
    by (rule logrankSums_snd_nonneg)
  show "getCustomSplitStatisticSurvival n membership time event eventTimeSize eventTime =
          Inr (if sqrt deltaDen \<le> 1 / 10 ^ 9 \<and> \<bar>deltaNum\<bar> \<le> 1 / 10 ^ 9 then Some 0
               else ddiv \<bar>deltaNum\<bar> (sqrt deltaDen))"
    if "logrankSums ?s (unat eventTimeSize) = (Some deltaNum, deltaDen)" for deltaNum deltaDen
  proof -
    have "0 \<le> deltaDen" using nn that by simp
    then show ?thesis
      unfolding getCustomSplitStatisticSurvival_def using assms that
      by (simp add: zeroGuard_finite)
  qed
  fix t deltaNum deltaDen
  assume h: "eventTypeSize \<noteq> - 1
      \<and> tablesCR n membership time event eventTypeSize eventTimeSize eventTime = Inr t
      \<and> logrankSumsCR t (unat eventTypeSize) (unat eventTimeSize) = (Some deltaNum, Some deltaDen)"
  then have run: "tablesCR n membership time event eventTypeSize eventTimeSize eventTime = Inr t"
    by simp
  show d: "0 \<le> deltaDen"
    using logrankSumsCR_snd_nonneg [OF run] h by (simp add: nonnegOpt_def)
  show "getCustomSplitStatisticCompetingRisk n membership time event eventTypeSize
                   eventTimeSize eventTime =
          Inr (if sqrt deltaDen \<le> 1 / 10 ^ 9 \<and> \<bar>deltaNum\<bar> \<le> 1 / 10 ^ 9 then Some 0
               else ddiv \<bar>deltaNum\<bar> (sqrt deltaDen))"
    unfolding getCustomSplitStatisticCompetingRisk_def using assms h d
    by (simp add: zeroGuard_finite)
qed

theorem zero_guard_witness:
  "getCustomSplitStatisticSurvival 2 (arr [LEFT, LEFT]) (arr [1, 2]) (arr [1, 1]) 2 (arr [1, 2])
     = Inr (Some 0)
   \<and> getCustomSplitStatisticCompetingRisk 2 (arr [LEFT, LEFT]) (arr [1, 2]) (arr [1, 1]) 1 2
       (arr [1, 2]) = Inr (Some 0)
   \<and> getCustomSplitStatisticSurvival 4 (arr [LEFT, RIGHT, LEFT, RIGHT]) (arr [1, 2, 3, 4])
       (arr [1, 0, 1, 1]) 3 (arr [1, 3, 4]) = Inr (ddiv 1 (sqrt (1 / 2)))"
proof -
  have K: "(2::uint) \<noteq> - 1" "(1::uint) \<noteq> - 1" "(3::uint) \<noteq> - 1" by simp_all
  have s: "logrankSums (atRiskTables 2 (arr [LEFT, LEFT]) (arr [1, 2]) (arr [1, 1]) 2 (arr [1, 2]))
      (unat (2::uint)) = (Some 0, 0)"
    by code_simp
  have c: "(case tablesCR 2 (arr [LEFT, LEFT]) (arr [1, 2]) (arr [1, 1]) 1 2 (arr [1, 2]) of
            Inl f \<Rightarrow> False
          | Inr t \<Rightarrow> logrankSumsCR t (unat (1::uint)) (unat (2::uint)) = (Some 0, Some 0))"
    by code_simp
  then obtain t where run: "tablesCR 2 (arr [LEFT, LEFT]) (arr [1, 2]) (arr [1, 1]) 1 2 (arr [1, 2]) = Inr t"
    and sums: "logrankSumsCR t (unat (1::uint)) (unat (2::uint)) = (Some 0, Some 0)"
    by (cases "tablesCR 2 (arr [LEFT, LEFT]) (arr [1, 2]) (arr [1, 1]) 1 2 (arr [1, 2])") auto
  have e: "logrankSums (atRiskTables 4 (arr [LEFT, RIGHT, LEFT, RIGHT]) (arr [1, 2, 3, 4])
     (arr [1, 0, 1, 1]) 3 (arr [1, 3, 4])) (unat (3::uint)) = (Some 1, 1 / 2)"
    using example_sums by simp
  note T = zero_guard [where n = 2 and membership = "arr [LEFT, LEFT]" and time = "arr [1, 2]"
      and event = "arr [1, 1]" and eventTime = "arr [1, 2]" and eventTypeSize = 1, OF K(1)]
  from T s have a: "getCustomSplitStatisticSurvival 2 (arr [LEFT, LEFT]) (arr [1, 2]) (arr [1, 1]) 2
      (arr [1, 2]) = Inr (if sqrt 0 \<le> 1 / 10 ^ 9 \<and> \<bar>0::real\<bar> \<le> 1 / 10 ^ 9 then Some 0
                         else ddiv \<bar>0\<bar> (sqrt 0))"
    by blast
  from T K(2) run sums have b: "getCustomSplitStatisticCompetingRisk 2 (arr [LEFT, LEFT]) (arr [1, 2])
      (arr [1, 1]) 1 2 (arr [1, 2]) = Inr (if sqrt 0 \<le> 1 / 10 ^ 9 \<and> \<bar>0::real\<bar> \<le> 1 / 10 ^ 9 then Some 0
                         else ddiv \<bar>0\<bar> (sqrt 0))"
    by blast
  from zero_guard [where n = 4 and membership = "arr [LEFT, RIGHT, LEFT, RIGHT]"
      and time = "arr [1, 2, 3, 4]" and event = "arr [1, 0, 1, 1]" and eventTime = "arr [1, 3, 4]"
      and eventTypeSize = 1, OF K(3)] e
  have d: "getCustomSplitStatisticSurvival 4 (arr [LEFT, RIGHT, LEFT, RIGHT]) (arr [1, 2, 3, 4])
       (arr [1, 0, 1, 1]) 3 (arr [1, 3, 4]) =
       Inr (if sqrt (1 / 2) \<le> 1 / 10 ^ 9 \<and> \<bar>1::real\<bar> \<le> 1 / 10 ^ 9 then Some 0
            else ddiv \<bar>1\<bar> (sqrt (1 / 2)))"
    by blast
  from a b d show ?thesis by simp
qed

section \<open>One cause: competing risks against survival\<close>


lemma atRisk_events:
  fixes n eventTimeSize :: uint and membership :: "daughter carray"
    and time event eventTime :: "real carray"
  shows "unat (nodeParentEvent
            (sweep membership time event eventTime (unat n) (unat eventTimeSize) resetTables) j)
         \<le> unat (nodeParentAtRisk
            (sweep membership time event eventTime (unat n) (unat eventTimeSize) resetTables) j)"
proof -
  define K where "K = unat eventTimeSize"
  define N where "N = unat n"
  have N: "N < 2 ^ 32" unfolding N_def by (rule unat_uint_less)
  define P where "P = (\<lambda>i k (t::survTables). k \<le> K \<and> total (nodeParentAtRisk t) K + i \<le> N
                          \<and> (\<forall>j. unat (nodeParentEvent t j) \<le> unat (nodeParentAtRisk t j)))"
  define Q where "Q = (\<lambda>t::survTables. \<forall>j. unat (nodeParentEvent t j) \<le> unat (nodeParentAtRisk t j))"
  have init: "P N K resetTables"
    by (simp add: P_def resetTables_def total_def)
  have "Q (sweep membership time event eventTime N K resetTables)"
  proof (rule sweep_rule [where P = P and Q = Q, OF init])
    fix i k t
    assume i: "0 < i" and k: "0 < k" and P: "P i k t"
    from P have kK: "k \<le> K" and tot: "total (nodeParentAtRisk t) K + i \<le> N"
      and le: "\<And>j. unat (nodeParentEvent t j) \<le> unat (nodeParentAtRisk t j)"
      by (simp_all add: P_def)
    have k1: "1 \<le> k" using k by simp
    have small: "total (nodeParentAtRisk t) K < 2 ^ 32 - 1" using tot N i by simp
    have tot': "total (incr (nodeParentAtRisk t) k) K = total (nodeParentAtRisk t) K + 1"
      by (rule total_incr [OF k1 kK small])
    have "unat (nodeParentAtRisk t k) < 2 ^ 32 - 1"
      using unat_le_total [OF k1 kK, of "nodeParentAtRisk t"] small by simp
    then have pa: "unat (nodeParentAtRisk t k + 1) = unat (nodeParentAtRisk t k) + 1"
      by (rule unat_incr)
    have "unat (nodeParentEvent t k + 1) \<le> unat (nodeParentAtRisk t k + 1)"
      using unat_incr_le [of "nodeParentEvent t k"] le [of k] pa by simp
    moreover have "unat (nodeParentEvent t k) \<le> unat (nodeParentAtRisk t k + 1)"
      using le [of k] pa by simp
    ultimately show "P (i - 1) k (visit membership time event eventTime i k t)"
      using kK tot tot' i le by (simp add: P_def incr_def)
  next
    fix i k t
    assume "0 < i" "0 < k" "P i k t"
    then show "P i (k - 1) t" by (auto simp: P_def)
  next
    fix i k t
    assume "P i k t"
    then show "Q t" by (simp add: P_def Q_def)
  qed
  then show ?thesis by (simp add: Q_def K_def N_def)
qed

lemma toUInt_cause:
  fixes R :: uint
  assumes "1 \<le> x" "x < real (unat R) + 1"
  shows "\<exists>c. toUInt x = Inr c \<and> c \<noteq> 0 \<and> c \<le> R \<and> unat c = classOf x"
proof -
  have "0 \<le> x" using assms(1) by simp
  from toUInt_class [OF this assms(2) refl] obtain c where
    c: "toUInt x = Inr c" "unat c = classOf x" "\<not> R < c" by blast
  have "1 \<le> \<lfloor>x\<rfloor>" using assms(1) by simp
  then have "1 \<le> nat \<lfloor>x\<rfloor>" by linarith
  moreover have "classOf x = nat \<lfloor>x\<rfloor>" using assms(1) by (simp add: classOf_def trunc_def)
  ultimately have "1 \<le> classOf x" by simp
  with c(2) have "c \<noteq> 0" by auto
  with c show ?thesis by auto
qed

lemma visitCR_defined:
  fixes R :: uint
  assumes "0 < ev i \<longrightarrow> 1 \<le> ev i \<and> ev i < real (unat R) + 1"
  shows "\<exists>t'. visitCR m tm ev R et i k t = Inr t'"
proof (cases "et k = tm i \<and> 0 < ev i")
  case False
  then show ?thesis by (auto simp: visitCR_def Let_def)
next
  case True
  with assms have "1 \<le> ev i" "ev i < real (unat R) + 1" by simp_all
  from toUInt_cause [OF this] obtain c where "toUInt (ev i) = Inr c" "c \<noteq> 0" "c \<le> R" by blast
  then show ?thesis using True by (auto simp: visitCR_def Let_def)
qed

lemma sweepCR_defined:
  fixes R :: uint
  assumes "\<forall>i. 1 \<le> i \<and> i \<le> N \<longrightarrow> (0 < ev i \<longrightarrow> 1 \<le> ev i \<and> ev i < real (unat R) + 1)"
    and "i \<le> N"
  shows "\<exists>tf. sweepCR m tm ev R et i k t = Inr tf"
  using assms
proof (induction m tm ev R et i k t rule: sweepCR.induct)
  case (1 m tm ev R et i k t)
  show ?case
  proof (cases "0 < i \<and> 0 < k")
    case False
    then have "i = 0 \<or> k = 0" by auto
    then show ?thesis by (simp add: sweepCR_stop)
  next
    case pos: True
    then have i: "0 < i" and k: "0 < k" by simp_all
    show ?thesis
    proof (cases "et k \<le> tm i")
      case True
      have "0 < ev i \<longrightarrow> 1 \<le> ev i \<and> ev i < real (unat R) + 1"
        using "1.prems" i by simp
      from visitCR_defined [where ev = ev and i = i, OF this]
      obtain t' where v: "visitCR m tm ev R et i k t = Inr t'"
        by blast
      have "i - 1 \<le> N" using "1.prems"(2) by simp
      from "1.IH"(1) [OF pos True v "1.prems"(1) this] show ?thesis
        using i k True v by (simp add: sweepCR_visit)
    next
      case False
      from "1.IH"(2) [OF pos False "1.prems"] show ?thesis
        using i k False by (simp add: sweepCR_skip)
    qed
  qed
qed


lemma sweepCR_single:
  assumes run: "sweepCR m tm ev 1 et N K resetTablesCR = Inr tf"
  shows "nodeParentEventCR tf 1 = nodeParentEvent (sweep m tm ev et N K resetTables)"
    and "nodeLeftEventCR tf 1 = nodeLeftEvent (sweep m tm ev et N K resetTables)"
proof -
  define fin where "fin = sweep m tm ev et N K resetTables"
  define P where "P = (\<lambda>i k (t::crTables). i \<le> N \<and> (\<exists>ts.
      nodeParentEventCR t 1 = nodeParentEvent ts \<and> nodeLeftEventCR t 1 = nodeLeftEvent ts
      \<and> sweep m tm ev et i k ts = fin))"
  define Q where "Q = (\<lambda>t::crTables.
      nodeParentEventCR t 1 = nodeParentEvent fin \<and> nodeLeftEventCR t 1 = nodeLeftEvent fin)"
  have init: "P N K resetTablesCR"
    unfolding P_def
    by (intro conjI exI [of _ resetTables]) (simp_all add: resetTablesCR_def resetTables_def fin_def)
  have "Q tf"
  proof (rule sweepCR_rule [where P = P and Q = Q, OF run init])
    fix i k t t'
    assume i: "0 < i" and k: "0 < k" and le: "et k \<le> tm i" and P: "P i k t"
      and v: "visitCR m tm ev 1 et i k t = Inr t'"
    from P obtain ts where iN: "i \<le> N" and ts: "nodeParentEventCR t 1 = nodeParentEvent ts"
      "nodeLeftEventCR t 1 = nodeLeftEvent ts" "sweep m tm ev et i k ts = fin"
      unfolding P_def by blast
    define evt where "evt \<longleftrightarrow> et k = tm i \<and> 0 < ev i"
    from visitCR_Inr(7) [OF v] obtain c where
      c: "evt \<longrightarrow> toUInt (ev i) = Inr c \<and> c \<noteq> 0 \<and> c \<le> 1"
      and pe: "nodeParentEventCR t' =
               (if evt then incr2 (nodeParentEventCR t) (unat c) k else nodeParentEventCR t)"
      and le': "nodeLeftEventCR t' =
               (if evt \<and> m i = LEFT then incr2 (nodeLeftEventCR t) (unat c) k
                else nodeLeftEventCR t)"
      unfolding evt_def conj_assoc by blast
    have c1: "unat c = 1" if evt
    proof -
      from that c have "c \<noteq> 0" "c \<le> 1" by simp_all
      then have "0 < unat c" "unat c \<le> 1" by (simp_all add: unat_gt_0 word_le_nat_alt)
      then show ?thesis by simp
    qed
    have step: "sweep m tm ev et (i - 1) k (visit m tm ev et i k ts) = fin"
      using ts(3) sweep_visit [of i k et tm m ev ts] i k le by simp
    have "nodeParentEventCR t' 1 = nodeParentEvent (visit m tm ev et i k ts)"
      using pe c1 ts(1) by (simp add: evt_def incr2_def)
    moreover have "nodeLeftEventCR t' 1 = nodeLeftEvent (visit m tm ev et i k ts)"
      using le' c1 ts(2) by (simp add: evt_def incr2_def)
    ultimately show "P (i - 1) k t'"
      unfolding P_def using iN step by (intro conjI exI [of _ "visit m tm ev et i k ts"]) simp_all
  next
    fix i k t
    assume i: "0 < i" and k: "0 < k" and gt: "\<not> et k \<le> tm i" and P: "P i k t"
    then show "P i (k - 1) t"
      unfolding P_def using sweep_skip [of i k et tm m ev] by auto
  next
    fix i k t
    assume "i = 0 \<or> k = 0" and "P i k t"
    then show "Q t"
      unfolding P_def Q_def using sweep_stop by auto
  qed
  then show "nodeParentEventCR tf 1 = nodeParentEvent (sweep m tm ev et N K resetTables)"
    and "nodeLeftEventCR tf 1 = nodeLeftEvent (sweep m tm ev et N K resetTables)"
    by (simp_all add: Q_def fin_def)
qed


lemma fold_Some:
  assumes "\<And>k d. k \<in> set xs \<Longrightarrow> g k (Some d) = Some (h k d)"
  shows "fold g xs (Some z) = Some (fold h xs z)"
  using assms by (induction xs arbitrary: z) simp_all

lemma atRiskTables_events:
  "nodeParentEvent (atRiskTables n m tm ev K et) = nodeParentEvent (sweep m tm ev et (unat n) (unat K) resetTables)"
  "nodeLeftEvent (atRiskTables n m tm ev K et) = nodeLeftEvent (sweep m tm ev et (unat n) (unat K) resetTables)"
  by (simp_all add: atRiskTables_def Let_def)

lemma product_exact:
  fixes n K :: uint
  assumes n: "unat n < 65536" and k: "1 \<le> k" "k \<le> unat K"
  shows "dbl (nodeLeftAtRisk (atRiskTables n m tm ev K et) k
              * nodeParentEvent (atRiskTables n m tm ev K et) k)
         = dbl (nodeLeftAtRisk (atRiskTables n m tm ev K et) k)
           * dbl (nodeParentEvent (atRiskTables n m tm ev K et) k)"
proof -
  let ?S = "atRiskTables n m tm ev K et"
  let ?raw = "sweep m tm ev et (unat n) (unat K) resetTables"
  have "unat (nodeLeftAtRisk ?S k) \<le> unat (nodeParentAtRisk ?S k)"
    by (rule atRisk_left_le [OF k])
  also have "\<dots> \<le> unat n"
    unfolding atRisk_unat(1) [OF k] by (rule atRisk_unat(3) [OF k])
  finally have la: "unat (nodeLeftAtRisk ?S k) \<le> unat n" .
  have "unat (nodeParentEvent ?S k) \<le> unat (nodeParentAtRisk ?raw k)"
    unfolding atRiskTables_events by (rule atRisk_events)
  also have "\<dots> \<le> total (nodeParentAtRisk ?raw) (unat K)"
    by (rule unat_le_total [OF k])
  also have "\<dots> \<le> unat n"
    using atRisk_counts [of m tm ev et n K] by simp
  finally have pe: "unat (nodeParentEvent ?S k) \<le> unat n" .
  have "unat (nodeLeftAtRisk ?S k) * unat (nodeParentEvent ?S k) \<le> unat n * unat n"
    by (rule mult_le_mono [OF la pe])
  also have "\<dots> \<le> 65535 * 65535"
    using n by (intro mult_le_mono) simp_all
  finally have "unat (nodeLeftAtRisk ?S k) * unat (nodeParentEvent ?S k) < 2 ^ 32" by simp
  then have "unat (nodeLeftAtRisk ?S k * nodeParentEvent ?S k)
      = unat (nodeLeftAtRisk ?S k) * unat (nodeParentEvent ?S k)"
    using unat_mult_lem [of "nodeLeftAtRisk ?S k" "nodeParentEvent ?S k"] by simp
  then show ?thesis by (simp only: dbl_def of_nat_mult)
qed


lemma word_ge_2:
  fixes P :: uint
  assumes "2 \<le> P"
  shows "P \<noteq> 0" and "P - 1 \<noteq> 0"
proof -
  have "2 \<le> unat P" using assms by (simp add: word_le_nat_alt)
  then show "P \<noteq> 0" by auto
  show "P - 1 \<noteq> 0"
  proof
    assume "P - 1 = 0"
    then have "P = 1" by simp
    with \<open>2 \<le> unat P\<close> show False by simp
  qed
qed

lemma dadd_zero: "dadd (Some 0) x = x"
  by (cases x) simp_all

lemma fold_single: "fold f [1..<Suc 1] z = f 1 z"
  by simp

lemma sums_single:
  assumes PA: "\<And>k. 1 \<le> k \<Longrightarrow> k \<le> K \<Longrightarrow> nodeParentAtRisk t k = nodeParentAtRisk S k"
    and PI: "\<And>k. 1 \<le> k \<Longrightarrow> k \<le> K \<Longrightarrow> nodeParentInclusiveAtRisk t 1 k = nodeParentAtRisk S k"
    and LI: "\<And>k. 1 \<le> k \<Longrightarrow> k \<le> K \<Longrightarrow> nodeLeftInclusiveAtRisk t 1 k = nodeLeftAtRisk S k"
    and PE: "\<And>k. 1 \<le> k \<Longrightarrow> k \<le> K \<Longrightarrow> nodeParentEventCR t 1 k = nodeParentEvent S k"
    and LE: "\<And>k. 1 \<le> k \<Longrightarrow> k \<le> K \<Longrightarrow> nodeLeftEventCR t 1 k = nodeLeftEvent S k"
    and prod: "\<And>k. 1 \<le> k \<Longrightarrow> k \<le> K \<Longrightarrow>
        dbl (nodeLeftAtRisk S k * nodeParentEvent S k) = dbl (nodeLeftAtRisk S k) * dbl (nodeParentEvent S k)"
  shows "logrankSumsCR t 1 K = (fst (logrankSums S K), Some (snd (logrankSums S K)))"
proof -
  have one: "[1..<Suc 1] = [1]" by simp
  have num: "numTermCR t 1 k = dsub (Some (dbl (nodeLeftEvent S k)))
        (ddiv (dbl (nodeLeftAtRisk S k * nodeParentEvent S k)) (dbl (nodeParentAtRisk S k)))"
    if "k \<in> set [1..<Suc K]" for k
  proof -
    from that have k: "1 \<le> k" "k \<le> K" by auto
    show ?thesis
      unfolding numTermCR_def PI [OF k] LI [OF k] PE [OF k] LE [OF k] prod [OF k]
      by (cases "nodeParentAtRisk S k = 0") simp_all
  qed
  have "fst (logrankSumsCR t 1 K) = fold (\<lambda>k s. dadd s (numTermCR t 1 k)) [1..<Suc K] (Some 0)"
    unfolding logrankSumsCR_fst fold_single dadd_zero ..
  also have "\<dots> = fst (logrankSums S K)"
    unfolding logrankSums_fst logrankNum_def
    by (rule fold_cong [OF refl refl]) (simp only: num)
  finally have n: "fst (logrankSumsCR t 1 K) = fst (logrankSums S K)" .
  have den: "(if 2 \<le> nodeParentAtRisk t k then dadd (Some d) (denTermCR t 1 k) else Some d)
        = Some (logrankDen S k d)"
    if "k \<in> set [1..<Suc K]" for k d
  proof (cases "2 \<le> nodeParentAtRisk S k")
    case False
    from that have k: "1 \<le> k" "k \<le> K" by auto
    show ?thesis using False by (simp add: PA [OF k] logrankDen_def)
  next
    case True
    from that have k: "1 \<le> k" "k \<le> K" by auto
    note nz = word_ge_2 [OF True]
    show ?thesis
      unfolding denTermCR_def PA [OF k] PI [OF k] LI [OF k] PE [OF k] logrankDen_def
      using True nz by (simp add: ac_simps)
  qed
  have "snd (logrankSumsCR t 1 K) =
      fold (\<lambda>k s. if 2 \<le> nodeParentAtRisk t k then dadd s (denTermCR t 1 k) else s)
        [1..<Suc K] (Some 0)"
    unfolding logrankSumsCR_snd fold_single dadd_zero ..
  also have "\<dots> = Some (fold (\<lambda>k. logrankDen S k) [1..<Suc K] 0)"
    by (rule fold_Some) (rule den)
  finally have d: "snd (logrankSumsCR t 1 K) = Some (snd (logrankSums S K))"
    unfolding logrankSums_snd .
  from n d show ?thesis by (simp add: prod_eq_iff)
qed

lemma tablesCR_single:
  fixes n K :: uint
  assumes run: "tablesCR n m tm ev 1 K et = Inr t" and k: "1 \<le> k" "k \<le> unat K"
  shows "nodeParentInclusiveAtRisk t 1 k = nodeParentAtRisk (atRiskTables n m tm ev K et) k"
    and "nodeLeftInclusiveAtRisk t 1 k = nodeLeftAtRisk (atRiskTables n m tm ev K et) k"
    and "nodeParentEventCR t 1 k = nodeParentEvent (atRiskTables n m tm ev K et) k"
    and "nodeLeftEventCR t 1 k = nodeLeftEvent (atRiskTables n m tm ev K et) k"
proof -
  have j: "(1::nat) \<le> 1" "1 \<le> unat (1::uint)" by simp_all
  have empty: "{1..unat (1::uint)} - {1} = {}" by auto
  show "nodeParentInclusiveAtRisk t 1 k = nodeParentAtRisk (atRiskTables n m tm ev K et) k"
    unfolding inclusive_sums(1) [OF run j k] empty by (simp add: tablesCR_atRisk(1) [OF run])
  show "nodeLeftInclusiveAtRisk t 1 k = nodeLeftAtRisk (atRiskTables n m tm ev K et) k"
    unfolding inclusive_sums(2) [OF run j k] empty by (simp add: tablesCR_atRisk(2) [OF run])
  from run obtain raw where raw: "sweepCR m tm ev 1 et (unat n) (unat K) resetTablesCR = Inr raw"
    and t: "t = inclusiveAtRisk (unat (1::uint)) (unat K)
          (raw\<lparr> nodeParentAtRisk := stepFunction (unat K) (nodeParentAtRisk raw),
                nodeLeftAtRisk := stepFunction (unat K) (nodeLeftAtRisk raw) \<rparr>)"
    by (rule tablesCR_Inr)
  show "nodeParentEventCR t 1 k = nodeParentEvent (atRiskTables n m tm ev K et) k"
    unfolding atRiskTables_events by (simp add: t sweepCR_single(1) [OF raw, unfolded One_nat_def])
  show "nodeLeftEventCR t 1 k = nodeLeftEvent (atRiskTables n m tm ev K et) k"
    unfolding atRiskTables_events by (simp add: t sweepCR_single(2) [OF raw, unfolded One_nat_def])
qed

lemma single_cause_agrees:
  fixes n eventTimeSize :: uint
  assumes small: "unat n < 65536"
    and labels: "\<forall>i. 1 \<le> i \<and> i \<le> unat n \<longrightarrow> (0 < event i \<longrightarrow> 1 \<le> event i \<and> event i < 2)"
  shows "getCustomSplitStatisticCompetingRisk n membership time event 1 eventTimeSize eventTime
         = getCustomSplitStatisticSurvival n membership time event eventTimeSize eventTime"
proof (cases "eventTimeSize = - 1")
  case True
  then show ?thesis
    by (simp add: getCustomSplitStatisticCompetingRisk_def getCustomSplitStatisticSurvival_def)
next
  case False
  let ?S = "atRiskTables n membership time event eventTimeSize eventTime"
  have "\<forall>i. 1 \<le> i \<and> i \<le> unat n \<longrightarrow>
      (0 < event i \<longrightarrow> 1 \<le> event i \<and> event i < real (unat (1::uint)) + 1)"
    using labels by simp
  from sweepCR_defined [OF this le_refl]
  obtain raw where "sweepCR membership time event 1 eventTime (unat n) (unat eventTimeSize)
      resetTablesCR = Inr raw" by blast
  then obtain t where run: "tablesCR n membership time event 1 eventTimeSize eventTime = Inr t"
    by (simp add: tablesCR_def)
  have "logrankSumsCR t 1 (unat eventTimeSize)
      = (fst (logrankSums ?S (unat eventTimeSize)), Some (snd (logrankSums ?S (unat eventTimeSize))))"
  proof (rule sums_single)
    fix k assume k: "1 \<le> k" "k \<le> unat eventTimeSize"
    show "nodeParentAtRisk t k = nodeParentAtRisk ?S k"
      by (simp add: tablesCR_atRisk(1) [OF run])
    show "nodeParentInclusiveAtRisk t 1 k = nodeParentAtRisk ?S k"
      by (rule tablesCR_single(1) [OF run k])
    show "nodeLeftInclusiveAtRisk t 1 k = nodeLeftAtRisk ?S k"
      by (rule tablesCR_single(2) [OF run k])
    show "nodeParentEventCR t 1 k = nodeParentEvent ?S k"
      by (rule tablesCR_single(3) [OF run k])
    show "nodeLeftEventCR t 1 k = nodeLeftEvent ?S k"
      by (rule tablesCR_single(4) [OF run k])
    show "dbl (nodeLeftAtRisk ?S k * nodeParentEvent ?S k)
        = dbl (nodeLeftAtRisk ?S k) * dbl (nodeParentEvent ?S k)"
      by (rule product_exact [OF small k])
  qed
  then show ?thesis
    using False run
    by (simp add: getCustomSplitStatisticCompetingRisk_def getCustomSplitStatisticSurvival_def
        split_beta Let_def)
qed


text \<open>
  With every positive label a cause in \<open>[1, eventTypeSize]\<close> the sweep reads no row outside
  the event matrices, and the competing-risk statistic returns.
\<close>

lemma tablesCR_defined:
  fixes n eventTypeSize eventTimeSize :: uint
  assumes "\<forall>i. 1 \<le> i \<and> i \<le> unat n \<longrightarrow>
      (0 < event i \<longrightarrow> 1 \<le> event i \<and> event i < real (unat eventTypeSize) + 1)"
  shows "\<exists>t. tablesCR n membership time event eventTypeSize eventTimeSize eventTime = Inr t"
proof -
  from sweepCR_defined [OF assms le_refl]
  obtain raw where "sweepCR membership time event eventTypeSize eventTime (unat n)
      (unat eventTimeSize) resetTablesCR = Inr raw" by blast
  then show ?thesis by (simp add: tablesCR_def)
qed

lemma competingRisk_returns:
  fixes n eventTypeSize eventTimeSize :: uint
  assumes "\<forall>i. 1 \<le> i \<and> i \<le> unat n \<longrightarrow>
      (0 < event i \<longrightarrow> 1 \<le> event i \<and> event i < real (unat eventTypeSize) + 1)"
    and "eventTimeSize \<noteq> - 1" "eventTypeSize \<noteq> - 1"
  shows "\<exists>r. getCustomSplitStatisticCompetingRisk n membership time event eventTypeSize
      eventTimeSize eventTime = Inr r"
proof -
  from tablesCR_defined [OF assms(1)]
  obtain t where "tablesCR n membership time event eventTypeSize eventTimeSize eventTime = Inr t"
    by blast
  then show ?thesis
    using assms(2,3) by (simp add: getCustomSplitStatisticCompetingRisk_def split_beta)
qed

lemma incr_same: "incr a k k = a k + 1"
  by (simp add: incr_def)

lemma large_sweep:
  fixes t :: survTables
  defines "r \<equiv> \<lambda>i t. sweep (\<lambda>i. if i = 1 then RIGHT else LEFT) (\<lambda>_. 1)
      (\<lambda>i. if i = 1 then 0 else 1) (\<lambda>_. 1) i 1 t"
  shows "nodeParentAtRisk (r i t) 1 = nodeParentAtRisk t 1 + of_nat i
       \<and> nodeLeftAtRisk (r i t) 1 = nodeLeftAtRisk t 1 + of_nat (i - 1)
       \<and> nodeParentEvent (r i t) 1 = nodeParentEvent t 1 + of_nat (i - 1)
       \<and> nodeLeftEvent (r i t) 1 = nodeLeftEvent t 1 + of_nat (i - 1)"
proof (induction i arbitrary: t)
  case 0
  show ?case by (simp add: r_def sweep_stop)
next
  case (Suc i)
  let ?v = "visit (\<lambda>i. if i = 1 then RIGHT else LEFT) (\<lambda>_. 1)
      (\<lambda>i. if i = 1 then 0 else 1) (\<lambda>_. 1) (Suc i) 1 t"
  have step: "r (Suc i) t = r i ?v"
    unfolding r_def by (subst sweep_visit) simp_all
  show ?case
  proof (cases "i = 0")
    case True
    then show ?thesis unfolding step by (simp add: r_def sweep_stop incr_same)
  next
    case False
    then obtain j where j: "i = Suc j" by (cases i) auto
    show ?thesis using Suc.IH [of ?v] unfolding step by (simp add: incr_same j)
  qed
qed

lemma large_tables:
  defines "S \<equiv> atRiskTables 65537 (\<lambda>i. if i = 1 then RIGHT else LEFT) (\<lambda>_. 1)
      (\<lambda>i. if i = 1 then 0 else 1) 1 (\<lambda>_. 1)"
  shows "nodeParentAtRisk S 1 = 65537" and "nodeLeftAtRisk S 1 = 65536"
    and "nodeParentEvent S 1 = 65536" and "nodeLeftEvent S 1 = 65536"
proof -
  have n: "unat (65537 :: uint) = 65537" by simp
  note sw = large_sweep [of 65537 resetTables]
  show "nodeParentAtRisk S 1 = 65537"
    unfolding S_def atRiskTables_PA n using sw by (simp add: stepFunction_stop resetTables_def)
  show "nodeLeftAtRisk S 1 = 65536"
    unfolding S_def atRiskTables_LA n using sw by (simp add: stepFunction_stop resetTables_def)
  show "nodeParentEvent S 1 = 65536"
    unfolding S_def atRiskTables_events n using sw by (simp add: resetTables_def)
  show "nodeLeftEvent S 1 = 65536"
    unfolding S_def atRiskTables_events n using sw by (simp add: resetTables_def)
qed

lemma product_wraps: "(65536 :: uint) * 65536 = 0"
  by simp

lemma large_sqrt: "sqrt (65536 / 4295098369) = 256 / 65537"
proof -
  have "(65536 / 4295098369 :: real) = (256 / 65537)\<^sup>2"
    by (simp add: power2_eq_square)
  then show ?thesis by (simp only: real_sqrt_abs)
qed

lemma unat_uint_1: "unat (1 :: uint) = 1"
  by simp

lemma large_survival_sums:
  "logrankSums (atRiskTables 65537 (\<lambda>i. if i = 1 then RIGHT else LEFT) (\<lambda>_. 1)
      (\<lambda>i. if i = 1 then 0 else 1) 1 (\<lambda>_. 1)) 1 = (Some 65536, 65536 / (65537 * 65537))"
proof -
  have w: "(65537 :: uint) - 65536 = 1" "(65537 :: uint) - 1 = 65536" "(2 :: uint) \<le> 65537"
    by simp_all
  show ?thesis
    unfolding logrankSums_def fold_single logrankNum_def logrankDen_def large_tables
      product_wraps w
    by (simp add: dbl_def)
qed

lemma large_survival:
  "getCustomSplitStatisticSurvival 65537 (\<lambda>i. if i = 1 then RIGHT else LEFT) (\<lambda>_. 1)
      (\<lambda>i. if i = 1 then 0 else 1) 1 (\<lambda>_. 1) = Inr (Some 16777472)"
  unfolding getCustomSplitStatisticSurvival_def Let_def unat_uint_1 large_survival_sums
  by (simp add: zeroGuard_def dfabs_def dsqrt_def large_sqrt ddiv_def)


lemma large_competing_sums:
  assumes run: "tablesCR 65537 (\<lambda>i. if i = 1 then RIGHT else LEFT) (\<lambda>_. 1)
      (\<lambda>i. if i = 1 then 0 else 1) 1 1 (\<lambda>_. 1) = Inr t"
  shows "logrankSumsCR t 1 1 = (Some (65536 / 65537), Some (65536 / 4295098369))"
proof -
  have k: "(1::nat) \<le> 1" "1 \<le> unat (1::uint)" by simp_all
  have w: "(65537 :: uint) - 65536 = 1" "(65537 :: uint) - 1 = 65536" "(2 :: uint) \<le> 65537"
    by simp_all
  have dv: "dbl 65537 = 65537" "dbl 65536 = 65536" "dbl 1 = 1"
    by (simp_all add: dbl_def)
  have n: "fst (logrankSumsCR t 1 1) = Some (65536 / 65537)"
    unfolding logrankSumsCR_fst fold_single dadd_zero numTermCR_def
      tablesCR_single [OF run k] large_tables dv
    by (simp add: ddiv_def)
  have d: "snd (logrankSumsCR t 1 1) = Some (65536 / 4295098369)"
    unfolding logrankSumsCR_snd fold_single dadd_zero denTermCR_def
      tablesCR_atRisk(1) [OF run] tablesCR_single [OF run k] large_tables w dv
    by (simp add: ddiv_def)
  from n d show ?thesis by (simp add: prod_eq_iff)
qed

lemma large_competing:
  "getCustomSplitStatisticCompetingRisk 65537 (\<lambda>i. if i = 1 then RIGHT else LEFT) (\<lambda>_. 1)
      (\<lambda>i. if i = 1 then 0 else 1) 1 1 (\<lambda>_. 1) = Inr (Some 256)"
proof -
  have "\<forall>i. 1 \<le> i \<and> i \<le> unat (65537 :: uint) \<longrightarrow>
      (0 < (if i = 1 then 0 else 1 :: real) \<longrightarrow>
       1 \<le> (if i = 1 then 0 else 1 :: real)
       \<and> (if i = 1 then 0 else 1 :: real) < real (unat (1::uint)) + 1)"
    by simp
  from sweepCR_defined [OF this le_refl]
  obtain raw where "sweepCR (\<lambda>i. if i = 1 then RIGHT else LEFT) (\<lambda>_. 1)
      (\<lambda>i. if i = 1 then 0 else 1) 1 (\<lambda>_. 1) (unat (65537 :: uint)) (unat (1 :: uint))
      resetTablesCR = Inr raw" by blast
  then obtain t where run: "tablesCR 65537 (\<lambda>i. if i = 1 then RIGHT else LEFT) (\<lambda>_. 1)
      (\<lambda>i. if i = 1 then 0 else 1) 1 1 (\<lambda>_. 1) = Inr t"
    by (simp add: tablesCR_def)
  show ?thesis
    unfolding getCustomSplitStatisticCompetingRisk_def run
    using large_competing_sums [OF run]
    by (simp add: zeroGuard_def dfabs_def dsqrt_def large_sqrt ddiv_def)
qed

text \<open>
  Claim C2. With a single cause (\<open>eventTypeSize = 1\<close>) the competing-risk statistic is to
  equal the survival statistic on the same data. Over exact reals the two agree as long as the
  product \<^verbatim>\<open>nodeLeftAtRisk[k] * nodeParentEvent[k]\<close> of line 374 fits an \<^verbatim>\<open>unsigned int\<close>
  (\<open>single_cause_agrees\<close>, for nodes of fewer than 65536 observations). The survival code
  multiplies the two counts before the cast to \<^verbatim>\<open>double\<close>, the competing-risk code of line
  563 multiplies in \<^verbatim>\<open>double\<close>. For a node of 65537 observations, all at time 1, the first
  one censored and in the right daughter, the others deaths in the left daughter, the tables
  are 65537 at risk, 65536 at risk on the left and 65536 events on either side; the product
  \<open>65536 * 65536\<close> wraps to 0, the survival statistic is 16777472 and the competing-risk
  statistic is 256. The two statistics are modelled with exact arithmetic: in doubles the
  two functions, which group the products differently, can differ in the last digits on
  small nodes as well, and the values here are 16777472 and 256 up to such rounding.
\<close>

theorem single_cause_diverges:
  "getCustomSplitStatisticSurvival 65537 (\<lambda>i. if i = 1 then RIGHT else LEFT) (\<lambda>_. 1)
      (\<lambda>i. if i = 1 then 0 else 1) 1 (\<lambda>_. 1) = Inr (Some 16777472)
   \<and> getCustomSplitStatisticCompetingRisk 65537 (\<lambda>i. if i = 1 then RIGHT else LEFT) (\<lambda>_. 1)
      (\<lambda>i. if i = 1 then 0 else 1) 1 1 (\<lambda>_. 1) = Inr (Some 256)"
  using large_survival large_competing by simp

end
